theory Spec2Isabelle
  imports Main "HOL-Library.Word"
begin

unbundle bit_operations_syntax

section \<open>The NSF memory subsystem of nsf.c\<close>

text \<open>
  A shallow embedding of \<^verbatim>\<open>software/esp32/main/nsf.c\<close>: the header parser, the memory
  image behind the 6502 bus callbacks, the contiguous ROM loader, the ten-slot bank cache
  with its LRU list, and the bootstrap program. C arrays are lists, \<^verbatim>\<open>uint8_t\<close> and
  \<^verbatim>\<open>uint16_t\<close> are words, the \<^verbatim>\<open>int\<close> entries of the LRU list are integers, and a
  pointer into the ROM buffer is an offset into it (\<open>None\<close> for the null pointer).
\<close>

subsection \<open>Machine types and return codes\<close>

type_synonym u8 = "8 word"
type_synonym u16 = "16 word"

text \<open>
  The \<^verbatim>\<open>esp_err_t\<close> codes the file returns. \<^verbatim>\<open>ESP_FAIL\<close> is the code \<^verbatim>\<open>-1\<close>,
  which the header parser returns as a literal.
\<close>

datatype esp_err_t =
  ESP_OK | ESP_FAIL | ESP_ERR_NO_MEM | ESP_ERR_INVALID_ARG | ESP_ERR_INVALID_STATE

abbreviation ROM_BANK_SIZE :: nat where "ROM_BANK_SIZE \<equiv> 4096"
abbreviation ROM_BANK_COUNT :: nat where "ROM_BANK_COUNT \<equiv> 10"

subsection \<open>The C stream\<close>

text \<open>
  A \<^verbatim>\<open>FILE *\<close> opened for reading: the bytes of the file, the position, and the
  end-of-file indicator. \<open>io_ok\<close> says whether the medium answers: when it does not,
  \<^verbatim>\<open>fseek\<close> returns a negative value and \<^verbatim>\<open>fread\<close> returns 0 without reaching the end of
  the file, which is how the error branches of the source are taken.
\<close>

record FILE =
  contents :: "u8 list"
  fpos :: nat
  at_eof :: bool
  io_ok :: bool

text \<open>\<^verbatim>\<open>fopen(filename, "rb")\<close> on a file system that maps names to contents.\<close>

definition fopen :: "(string \<rightharpoonup> u8 list) \<Rightarrow> string \<Rightarrow> FILE option" where
  "fopen fs filename =
     (case fs filename of
        None \<Rightarrow> None
      | Some bs \<Rightarrow> Some \<lparr>contents = bs, fpos = 0, at_eof = False, io_ok = True\<rparr>)"

text \<open>
  \<^verbatim>\<open>fseek(file, offset, SEEK_SET)\<close>: \<open>None\<close> is the negative return value. Seeking past
  the end of the file succeeds; the next read there is empty.
\<close>

definition fseek :: "FILE \<Rightarrow> nat \<Rightarrow> FILE option" where
  "fseek f offset =
     (if io_ok f then Some (f\<lparr>fpos := offset, at_eof := False\<rparr>) else None)"

text \<open>
  \<^verbatim>\<open>fread(dst, 1, count, file)\<close>: the bytes delivered (their number is the return value)
  and the stream afterwards. A read that delivers fewer bytes than asked for on a working
  medium has reached the end of the file.
\<close>

definition fread :: "nat \<Rightarrow> FILE \<Rightarrow> u8 list \<times> FILE" where
  "fread count f =
     (if io_ok f then
        (let data = take count (drop (fpos f) (contents f))
         in (data, f\<lparr>fpos := fpos f + length data,
                      at_eof := at_eof f \<or> length data < count\<rparr>))
      else ([], f))"

definition feof :: "FILE \<Rightarrow> bool" where
  "feof f = at_eof f"

text \<open>
  Writing a block of bytes into a buffer at an offset (\<^verbatim>\<open>bzero\<close>, and the destination of
  \<^verbatim>\<open>fread\<close>). Every call in the source stays inside the buffer it writes to when the
  buffer has the size its allocation gave it. A write past the end of the buffer has no
  defined behaviour in C (here the list would grow); a bankswitched playback never makes
  one, as is proved below for the buffer of ten slots.
\<close>

definition mem_write :: "u8 list \<Rightarrow> nat \<Rightarrow> u8 list \<Rightarrow> u8 list" where
  "mem_write buf off data = take off buf @ data @ drop (off + length data) buf"

subsection \<open>The header\<close>

record nsf_header_t =
  version :: u8
  total_songs :: u8
  starting_song :: u8
  load_address :: u16
  init_address :: u16
  play_address :: u16
  name :: "u8 list"
  artist :: "u8 list"
  copyright :: "u8 list"
  play_speed_ntsc :: u16
  bankswitch_init :: "u8 list"
  play_speed_pal :: u16
  pal_ntsc_bits :: u8
  extra_sound_chips :: u8
  extra :: "u8 list"

text \<open>The expression \<^verbatim>\<open>buf[n] | (buf[n+1] << 8)\<close>, stored into a \<^verbatim>\<open>uint16_t\<close>.\<close>

definition buf16 :: "u8 list \<Rightarrow> nat \<Rightarrow> u16" where
  "buf16 buf n = ucast (buf ! n) OR push_bit 8 (ucast (buf ! (n + 1)))"

text \<open>
  \<^verbatim>\<open>strncpy(dst, src, n)\<close> into a field of \<open>n\<close> bytes: the bytes before the first NUL
  among the first \<open>n\<close>, padded with NUL bytes to \<open>n\<close>.
\<close>

definition strncpy :: "u8 list \<Rightarrow> nat \<Rightarrow> u8 list" where
  "strncpy src n =
     (let s = takeWhile (\<lambda>c. c \<noteq> 0) (take n src)
      in s @ replicate (n - length s) 0)"

definition nsf_magic :: "u8 list" where
  "nsf_magic = [0x4E, 0x45, 0x53, 0x4D, 0x1A]"

text \<open>
  \<^verbatim>\<open>nsf_read_header_impl\<close>. The counter \<^verbatim>\<open>n\<close> of the source takes the values 5, 6, 7, 8,
  10, 12, 14, 46, 78, 110, 112, 120, 122, 123 and 124 and ends at \<^verbatim>\<open>0x80\<close>, as the source
  asserts. The header is written only after both checks have passed.
\<close>

definition nsf_read_header_impl :: "FILE \<Rightarrow> (esp_err_t + nsf_header_t) \<times> FILE" where
  "nsf_read_header_impl file =
     (let (buf, file') = fread 128 file
      in if length buf \<noteq> 128 then (Inl ESP_FAIL, file')
         else if take 5 buf \<noteq> nsf_magic then (Inl ESP_FAIL, file')
         else
           (Inr \<lparr>version = buf ! 5,
                 total_songs = buf ! 6,
                 starting_song = buf ! 7,
                 load_address = buf16 buf 8,
                 init_address = buf16 buf 10,
                 play_address = buf16 buf 12,
                 name = (strncpy (drop 14 buf) 32)[31 := 0],
                 artist = (strncpy (drop 46 buf) 32)[31 := 0],
                 copyright = (strncpy (drop 78 buf) 32)[31 := 0],
                 play_speed_ntsc = buf16 buf 110,
                 bankswitch_init = take 8 (drop 112 buf),
                 play_speed_pal = buf16 buf 120,
                 pal_ntsc_bits = buf ! 122,
                 extra_sound_chips = buf ! 123,
                 extra = take 4 (drop 124 buf)\<rparr>, file'))"

text \<open>\<^verbatim>\<open>nsf_read_header\<close>: a null file name is an invalid argument.\<close>

definition nsf_read_header ::
  "(string \<rightharpoonup> u8 list) \<Rightarrow> string option \<Rightarrow> esp_err_t + nsf_header_t" where
  "nsf_read_header fs filename =
     (case filename of
        None \<Rightarrow> Inl ESP_ERR_INVALID_ARG
      | Some fname \<Rightarrow>
          (case fopen fs fname of
             None \<Rightarrow> Inl ESP_FAIL
           | Some file \<Rightarrow> fst (nsf_read_header_impl file)))"

subsection \<open>The memory image\<close>

text \<open>
  \<^verbatim>\<open>nsf_nes_memory_t\<close>. \<open>rom\<close> is the buffer behind the pointer of that name (the null
  pointer is the empty buffer), and each \<open>rom_block\<close> entry is the offset of the pointed-to
  byte in it. The entries of \<open>rom_bank_use_order\<close> are C \<^verbatim>\<open>int\<close>s: a bank ID, or \<open>-1\<close>.
\<close>

record nsf_nes_memory_t =
  ram :: "u8 list"
  prg :: "u8 list"
  apu_regs :: "u8 list"
  bank_regs :: "u8 list"
  int_vecs :: "u8 list"
  rom_block :: "nat option list"
  rom_block_bank_id :: "u8 list"
  rom :: "u8 list"
  rom_bank_id :: "u8 list"
  rom_bank_loaded :: "u8 list"
  rom_bank_use_order :: "int list"

text \<open>
  \<^verbatim>\<open>struct nsf_file_t\<close>. \<open>fp\<close> is the field \<^verbatim>\<open>file\<close> (a reserved word here).
  \<open>apu_write_cb\<close> records whether the callback pointer is set; a
  call through it is an event of the trace below.
\<close>

record nsf_file_t =
  fp :: FILE
  header :: nsf_header_t
  nes_memory :: nsf_nes_memory_t
  apu_write_cb :: bool

text \<open>
  What the bus does beyond changing the memory image: a call of the APU callback with its
  two arguments, and a call of \<^verbatim>\<open>nsf_load_rom_bank\<close> from a bank-register write.
\<close>

datatype event = Apu_write_cb u16 u8 | Load_rom_bank u16 u8

text \<open>
  The state the bus callbacks work on: the process-wide pointer \<^verbatim>\<open>active_nsf_file\<close>
  (\<open>None\<close> when it is null) with the instance it points to, and the trace of events.
\<close>

record world =
  active_nsf_file :: "nsf_file_t option"
  events :: "event list"

subsection \<open>The LRU list\<close>

text \<open>The loop \<^verbatim>\<open>for (j = i; j > 0; --j) order[j] = order[j - 1];\<close>\<close>

fun shift_down :: "int list \<Rightarrow> nat \<Rightarrow> int list" where
  "shift_down order 0 = order"
| "shift_down order (Suc j) = shift_down (order[Suc j := order ! j]) j"

definition mark_rom_bank_used :: "nsf_nes_memory_t \<Rightarrow> u8 \<Rightarrow> nsf_nes_memory_t" where
  "mark_rom_bank_used m bank =
     (let order = rom_bank_use_order m
      in if order ! 0 = uint bank then m
         else
           (case find (\<lambda>i. order ! i = uint bank) [1..<ROM_BANK_COUNT] of
              Some i \<Rightarrow> m\<lparr>rom_bank_use_order := (shift_down order i)[0 := uint bank]\<rparr>
            | None \<Rightarrow>
                if order ! (ROM_BANK_COUNT - 1) \<noteq> - 1 then m
                else m\<lparr>rom_bank_use_order :=
                        (shift_down order (ROM_BANK_COUNT - 1))[0 := uint bank]\<rparr>))"

subsection \<open>Loading a bank\<close>

text \<open>Lines 489 to 495: the first slot that is loaded and holds the bank.\<close>

definition find_loaded_bank :: "nsf_nes_memory_t \<Rightarrow> u8 \<Rightarrow> nat option" where
  "find_loaded_bank m bank =
     find (\<lambda>i. rom_bank_loaded m ! i \<noteq> 0 \<and> rom_bank_id m ! i = bank) [0..<ROM_BANK_COUNT]"

text \<open>Lines 506 to 512: the first slot that is not loaded.\<close>

definition find_empty_slot :: "nsf_nes_memory_t \<Rightarrow> nat option" where
  "find_empty_slot m = find (\<lambda>i. rom_bank_loaded m ! i = 0) [0..<ROM_BANK_COUNT]"

text \<open>
  Lines 540 to 546: the first ROM block that is set and whose recorded bank ID equals the
  slot index \<^verbatim>\<open>bank_index\<close> is cleared, and the loop stops there.
\<close>

definition clear_rom_block_reference :: "nsf_nes_memory_t \<Rightarrow> nat \<Rightarrow> nsf_nes_memory_t" where
  "clear_rom_block_reference m bank_index =
     (case find (\<lambda>i. rom_block m ! i \<noteq> None \<and> uint (rom_block_bank_id m ! i) = int bank_index)
             [0..<8] of
        None \<Rightarrow> m
      | Some i \<Rightarrow> m\<lparr>rom_block := (rom_block m)[i := None],
                    rom_block_bank_id := (rom_block_bank_id m)[i := 0]\<rparr>)"

text \<open>
  Lines 513 to 547, taken when no slot is empty: the slot of the bank at the end of the use
  list is given up. The result is the slot index, or the error the source returns.
\<close>

definition evict_oldest_bank :: "nsf_nes_memory_t \<Rightarrow> esp_err_t + nat \<times> nsf_nes_memory_t" where
  "evict_oldest_bank m =
     (let oldest_bank = rom_bank_use_order m ! (ROM_BANK_COUNT - 1)
      in if oldest_bank = - 1 then Inl ESP_FAIL
         else
           (case find (\<lambda>i. uint (rom_bank_id m ! i) = oldest_bank) [0..<ROM_BANK_COUNT] of
              None \<Rightarrow> Inl ESP_FAIL
            | Some bank_index \<Rightarrow>
                Inr (bank_index,
                     clear_rom_block_reference
                       (m\<lparr>rom_bank_use_order := (rom_bank_use_order m)[ROM_BANK_COUNT - 1 := - 1],
                          rom_bank_loaded := (rom_bank_loaded m)[bank_index := 0],
                          rom_bank_id := (rom_bank_id m)[bank_index := 0]\<rparr>)
                       bank_index)))"

text \<open>
  Lines 549 to 576: the slot is zeroed and marked unloaded, the file is positioned and
  read into the slot. \<open>False\<close> is the return of \<^verbatim>\<open>ESP_FAIL\<close> from these lines.
\<close>

definition load_bank_data :: "nsf_file_t \<Rightarrow> nat \<Rightarrow> u8 \<Rightarrow> bool \<times> nsf_file_t" where
  "load_bank_data nsf bank_index bank =
     (let m = nes_memory nsf;
          padding = unat (load_address (header nsf) AND 0x0FFF);
          rom_bank = bank_index * 4096;
          m1 = m\<lparr>rom := mem_write (rom m) rom_bank (replicate 4096 0),
                 rom_bank_loaded := (rom_bank_loaded m)[bank_index := 0]\<rparr>
      in if bank = 0 then
           (case fseek (fp nsf) 0x080 of
              None \<Rightarrow> (False, nsf\<lparr>nes_memory := m1\<rparr>)
            | Some f \<Rightarrow>
                (let (data, f') = fread (4096 - padding) f
                 in if length data = 0 \<and> \<not> feof f'
                    then (False, nsf\<lparr>fp := f', nes_memory := m1\<rparr>)
                    else (True, nsf\<lparr>fp := f',
                            nes_memory := m1\<lparr>rom := mem_write (rom m1) (rom_bank + padding) data\<rparr>\<rparr>)))
         else
           (case fseek (fp nsf) (0x080 + (4096 - padding) + 4096 * (unat bank - 1)) of
              None \<Rightarrow> (False, nsf\<lparr>nes_memory := m1\<rparr>)
            | Some f \<Rightarrow>
                (let (data, f') = fread 4096 f
                 in if length data = 0 \<and> \<not> feof f'
                    then (False, nsf\<lparr>fp := f', nes_memory := m1\<rparr>)
                    else (True, nsf\<lparr>fp := f',
                            nes_memory := m1\<lparr>rom := mem_write (rom m1) rom_bank data\<rparr>\<rparr>))))"

text \<open>Lines 579 to 583: the slot and the target block are committed, the bank is touched.\<close>

definition commit_bank :: "nsf_nes_memory_t \<Rightarrow> nat \<Rightarrow> nat \<Rightarrow> u8 \<Rightarrow> nsf_nes_memory_t" where
  "commit_bank m bank_index target_block bank =
     mark_rom_bank_used
       (m\<lparr>rom_bank_loaded := (rom_bank_loaded m)[bank_index := 1],
          rom_bank_id := (rom_bank_id m)[bank_index := bank],
          rom_block := (rom_block m)[target_block := Some (bank_index * 4096)],
          rom_block_bank_id := (rom_block_bank_id m)[target_block := bank]\<rparr>)
       bank"

definition nsf_load_rom_bank :: "nsf_file_t \<Rightarrow> u16 \<Rightarrow> u8 \<Rightarrow> esp_err_t \<times> nsf_file_t" where
  "nsf_load_rom_bank nsf reg bank =
     (if reg < 0x5FF8 \<or> reg > 0x5FFF then (ESP_ERR_INVALID_ARG, nsf)
      else
        (let m = nes_memory nsf;
             target_block = unat (ucast (reg - 0x5FF8) :: u8)
         in case find_loaded_bank m bank of
              Some bank_index \<Rightarrow>
                (ESP_OK, nsf\<lparr>nes_memory :=
                   mark_rom_bank_used
                     (m\<lparr>rom_block := (rom_block m)[target_block := Some (bank_index * 4096)],
                        rom_block_bank_id := (rom_block_bank_id m)[target_block := bank]\<rparr>)
                     bank\<rparr>)
            | None \<Rightarrow>
                (case (case find_empty_slot m of
                         Some bank_index \<Rightarrow> Inr (bank_index, m)
                       | None \<Rightarrow> evict_oldest_bank m) of
                   Inl e \<Rightarrow> (e, nsf)
                 | Inr (bank_index, m1) \<Rightarrow>
                     (let (ok, nsf') = load_bank_data (nsf\<lparr>nes_memory := m1\<rparr>) bank_index bank
                      in if \<not> ok then (ESP_FAIL, nsf')
                         else (ESP_OK, nsf'\<lparr>nes_memory :=
                                 commit_bank (nes_memory nsf') bank_index target_block bank\<rparr>)))))"

subsection \<open>The bus callbacks\<close>

definition read6502 :: "u16 \<Rightarrow> world \<Rightarrow> u8 \<times> world" where
  "read6502 address w =
     (case active_nsf_file w of
        None \<Rightarrow> (0, w)
      | Some nsf \<Rightarrow>
          (let m = nes_memory nsf
           in if address \<le> 0x07FF then (ram m ! unat address, w)
              else if 0x1000 \<le> address \<and> address \<le> 0x107F
                then (prg m ! unat (address - 0x1000), w)
              else if 0x4000 \<le> address \<and> address \<le> 0x4017
                then (apu_regs m ! unat (address - 0x4000), w)
              else if 0x5FF8 \<le> address \<and> address \<le> 0x5FFF
                then (bank_regs m ! unat (address - 0x5FF8), w)
              else if 0x8000 \<le> address \<and> address < 0xFFFA then
                (let block_index = unat (ucast (drop_bit 12 (address AND 0x7000)) :: u8)
                 in case rom_block m ! block_index of
                      None \<Rightarrow> (0, w)
                    | Some p \<Rightarrow>
                        (rom m ! (p + unat (address AND 0x0FFF)),
                         w\<lparr>active_nsf_file := Some (nsf\<lparr>nes_memory :=
                              mark_rom_bank_used m (rom_block_bank_id m ! block_index)\<rparr>)\<rparr>))
              else if 0xFFFA \<le> address then (int_vecs m ! unat (address - 0xFFFA), w)
              else (0, w)))"

definition write6502 :: "u16 \<Rightarrow> u8 \<Rightarrow> world \<Rightarrow> world" where
  "write6502 address value w =
     (case active_nsf_file w of
        None \<Rightarrow> w
      | Some nsf \<Rightarrow>
          (let m = nes_memory nsf
           in if address \<le> 0x07FF then
                w\<lparr>active_nsf_file := Some (nsf\<lparr>nes_memory :=
                     m\<lparr>ram := (ram m)[unat address := value]\<rparr>\<rparr>)\<rparr>
              else if 0x4000 \<le> address \<and> address \<le> 0x4017 then
                (let w1 = w\<lparr>active_nsf_file := Some (nsf\<lparr>nes_memory :=
                            m\<lparr>apu_regs := (apu_regs m)[unat (address - 0x4000) := value]\<rparr>\<rparr>)\<rparr>
                 in if address \<noteq> 0x4016 \<and> apu_write_cb nsf
                    then w1\<lparr>events := events w1 @ [Apu_write_cb address value]\<rparr>
                    else w1)
              else if 0x5FF8 \<le> address \<and> address \<le> 0x5FFF then
                (if bank_regs m ! unat (address - 0x5FF8) \<noteq> value then
                   (let nsf1 = nsf\<lparr>nes_memory :=
                          m\<lparr>bank_regs := (bank_regs m)[unat (address - 0x5FF8) := value]\<rparr>\<rparr>
                    in w\<lparr>active_nsf_file := Some (snd (nsf_load_rom_bank nsf1 address value)),
                         events := events w @ [Load_rom_bank address value]\<rparr>)
                 else w)
              else w))"

subsection \<open>Initialising the memory image\<close>

text \<open>\<^verbatim>\<open>bzero(nes_memory, sizeof(nsf_nes_memory_t))\<close>: every array at its declared size.\<close>

definition zero_nes_memory :: nsf_nes_memory_t where
  "zero_nes_memory =
     \<lparr>ram = replicate 2048 0, prg = replicate 128 0, apu_regs = replicate 24 0,
      bank_regs = replicate 8 0, int_vecs = replicate 6 0,
      rom_block = replicate 8 None, rom_block_bank_id = replicate 8 0,
      rom = [], rom_bank_id = replicate ROM_BANK_COUNT 0,
      rom_bank_loaded = replicate ROM_BANK_COUNT 0,
      rom_bank_use_order = replicate ROM_BANK_COUNT 0\<rparr>"

definition nsf_init_nes_memory :: "nsf_file_t \<Rightarrow> nsf_file_t" where
  "nsf_init_nes_memory nsf =
     nsf\<lparr>nes_memory := zero_nes_memory\<lparr>apu_regs := (apu_regs zero_nes_memory)[0x17 := 0x40]\<rparr>\<rparr>"

definition nsf_init_nes_prg :: "nsf_file_t \<Rightarrow> u8 \<Rightarrow> u8 \<Rightarrow> nsf_file_t" where
  "nsf_init_nes_prg nsf song pal_ntsc =
     (let m = nes_memory nsf;
          init = init_address (header nsf);
          play = play_address (header nsf)
      in nsf\<lparr>nes_memory := m
           \<lparr>prg := (prg m)
              [0 := 0xA9, 1 := song,
               2 := 0xA2, 3 := pal_ntsc,
               4 := 0x20, 5 := ucast (init AND 0x00FF), 6 := ucast (drop_bit 8 (init AND 0xFF00)),
               7 := 0x20, 8 := ucast (play AND 0x00FF), 9 := ucast (drop_bit 8 (play AND 0xFF00)),
               10 := 0x4C, 11 := 0x07, 12 := 0x10,
               13 := 0xEA, 14 := 0xEA, 15 := 0xEA, 16 := 0xEA],
            int_vecs := (int_vecs m)[2 := 0x00, 3 := 0x10]\<rparr>\<rparr>)"

definition nsf_has_bank_switching :: "nsf_file_t \<Rightarrow> bool" where
  "nsf_has_bank_switching nsf =
     (find (\<lambda>i. bankswitch_init (header nsf) ! i \<noteq> 0) [0..<8] \<noteq> None)"

subsection \<open>The two ROM loaders\<close>

text \<open>
  \<^verbatim>\<open>nsf_init_load_nes_rom\<close>. The buffer of 32768 bytes is allocated and zeroed, the blocks
  are cleared, at most \<^verbatim>\<open>0xFFFF - load_address\<close> bytes are read to offset
  \<^verbatim>\<open>load_address - 0x8000\<close>; a read of no byte at all is the error return.
\<close>

definition nsf_init_load_nes_rom :: "nsf_file_t \<Rightarrow> esp_err_t \<times> nsf_file_t" where
  "nsf_init_load_nes_rom nsf =
     (if load_address (header nsf) < 0x8000 then (ESP_FAIL, nsf)
      else
        (case fseek (fp nsf) 0x080 of
           None \<Rightarrow> (ESP_FAIL, nsf)
         | Some f \<Rightarrow>
             (let offset = unat (load_address (header nsf)) - 0x8000;
                  max_len = 0xFFFF - unat (load_address (header nsf));
                  m1 = (nes_memory nsf)\<lparr>rom := replicate 32768 0, rom_block := replicate 8 None\<rparr>;
                  (data, f') = fread max_len f;
                  m2 = m1\<lparr>rom := mem_write (rom m1) offset data\<rparr>
              in if length data = 0 then (ESP_FAIL, nsf\<lparr>fp := f', nes_memory := m2\<rparr>)
                 else (ESP_OK, nsf\<lparr>fp := f', nes_memory :=
                         m2\<lparr>rom_block := map (\<lambda>i. Some (i * 4096)) [0..<8]\<rparr>\<rparr>))))"

text \<open>
  The loop of \<^verbatim>\<open>nsf_init_load_nes_rom_banks\<close> over the eight bank registers, which stops
  at the first load that fails.
\<close>

fun load_initial_banks :: "nsf_file_t \<Rightarrow> nat list \<Rightarrow> esp_err_t \<times> nsf_file_t" where
  "load_initial_banks nsf [] = (ESP_OK, nsf)"
| "load_initial_banks nsf (i # rest) =
     (let (ret, nsf') =
            nsf_load_rom_bank nsf (0x5FF8 + of_nat i) (bankswitch_init (header nsf) ! i)
      in if ret \<noteq> ESP_OK then (ret, nsf') else load_initial_banks nsf' rest)"

definition nsf_init_load_nes_rom_banks :: "nsf_file_t \<Rightarrow> esp_err_t \<times> nsf_file_t" where
  "nsf_init_load_nes_rom_banks nsf =
     load_initial_banks
       (nsf\<lparr>nes_memory := (nes_memory nsf)
          \<lparr>rom := replicate (ROM_BANK_SIZE * ROM_BANK_COUNT) 0,
           rom_bank_id := replicate ROM_BANK_COUNT 0,
           rom_bank_loaded := replicate ROM_BANK_COUNT 0,
           rom_bank_use_order := replicate ROM_BANK_COUNT (- 1),
           rom_block := replicate 8 None,
           rom_block_bank_id := replicate 8 0\<rparr>\<rparr>)
       [0..<8]"

subsection \<open>Starting playback\<close>

text \<open>
  The 6502 core (\<^verbatim>\<open>reset6502\<close>, \<^verbatim>\<open>step6502\<close>, \<^verbatim>\<open>get6502_pc\<close>) is not part of this
  file. All it does to the state above is call \<^verbatim>\<open>read6502\<close> and \<^verbatim>\<open>write6502\<close>, so a run
  of the core is the sequence of bus calls it makes.
\<close>

datatype bus_op = Bus_read u16 | Bus_write u16 u8

fun bus_step :: "world \<Rightarrow> bus_op \<Rightarrow> world" where
  "bus_step w (Bus_read address) = snd (read6502 address w)"
| "bus_step w (Bus_write address value) = write6502 address value w"

definition cpu_run :: "bus_op list \<Rightarrow> world \<Rightarrow> world" where
  "cpu_run ops w = foldl bus_step w ops"

text \<open>
  \<^verbatim>\<open>nsf_playback_init\<close>, on the instance that \<^verbatim>\<open>nsf_open\<close> made the active one. \<open>cpu_ops\<close>
  are the bus calls of the core from its reset until the program counter is \<^verbatim>\<open>0x1007\<close>;
  the function returns \<^verbatim>\<open>ESP_OK\<close> only after that loop has ended. The pal_ntsc argument of
  \<^verbatim>\<open>nsf_init_nes_prg\<close> is the constant 0.
\<close>

definition nsf_playback_init ::
  "bus_op list \<Rightarrow> nsf_file_t \<Rightarrow> u8 \<Rightarrow> bool \<Rightarrow> esp_err_t \<times> world" where
  "nsf_playback_init cpu_ops nsf song cb =
     (let nsf1 = nsf_init_nes_prg (nsf_init_nes_memory (nsf\<lparr>apu_write_cb := cb\<rparr>)) song 0;
          (ret, nsf2) = (if nsf_has_bank_switching nsf1
                         then nsf_init_load_nes_rom_banks nsf1
                         else nsf_init_load_nes_rom nsf1);
          w = \<lparr>active_nsf_file = Some nsf2, events = []\<rparr>
      in if ret \<noteq> ESP_OK then (ret, w) else (ESP_OK, cpu_run cpu_ops w))"

subsection \<open>Observations used by the properties\<close>

text \<open>The array sizes that the declaration of \<^verbatim>\<open>nsf_nes_memory_t\<close> fixes.\<close>

definition nes_memory_sizes :: "nsf_nes_memory_t \<Rightarrow> bool" where
  "nes_memory_sizes m \<longleftrightarrow>
     length (ram m) = 2048 \<and> length (prg m) = 128 \<and> length (apu_regs m) = 24 \<and>
     length (bank_regs m) = 8 \<and> length (int_vecs m) = 6 \<and>
     length (rom_block m) = 8 \<and> length (rom_block_bank_id m) = 8 \<and>
     length (rom_bank_id m) = ROM_BANK_COUNT \<and>
     length (rom_bank_loaded m) = ROM_BANK_COUNT \<and>
     length (rom_bank_use_order m) = ROM_BANK_COUNT"

text \<open>Two memory images agree on the regions that no bank load touches.\<close>

definition same_fixed_regions :: "nsf_nes_memory_t \<Rightarrow> nsf_nes_memory_t \<Rightarrow> bool" where
  "same_fixed_regions m m' \<longleftrightarrow>
     ram m' = ram m \<and> prg m' = prg m \<and> apu_regs m' = apu_regs m \<and>
     bank_regs m' = bank_regs m \<and> int_vecs m' = int_vecs m"

text \<open>The number of bank loads requested so far, and the callback calls made so far.\<close>

fun is_bank_load :: "event \<Rightarrow> bool" where
  "is_bank_load (Load_rom_bank reg bank) = True"
| "is_bank_load (Apu_write_cb address value) = False"

definition bank_load_count :: "world \<Rightarrow> nat" where
  "bank_load_count w = length (filter is_bank_load (events w))"

definition apu_calls :: "world \<Rightarrow> (u16 \<times> u8) list" where
  "apu_calls w =
     concat (map (\<lambda>e. case e of Apu_write_cb a v \<Rightarrow> [(a, v)] | Load_rom_bank r b \<Rightarrow> []) (events w))"

subsection \<open>An example file\<close>

text \<open>
  A header of 128 bytes with version 1, two songs, starting song 1 and the three
  addresses \<^verbatim>\<open>$8000\<close>, followed by a body of 8192 bytes \<^verbatim>\<open>0xAB\<close>; the stream after
  the header has been read; and the instance with that header and a zeroed memory image.
\<close>

definition example_header_bytes :: "u8 list" where
  "example_header_bytes =
     [0x4E, 0x45, 0x53, 0x4D, 0x1A, 0x01, 0x02, 0x01, 0x00, 0x80, 0x00, 0x80, 0x00, 0x80]
       @ replicate 114 0"

definition example_header :: nsf_header_t where
  "example_header =
     \<lparr>version = 1, total_songs = 2, starting_song = 1,
      load_address = 0x8000, init_address = 0x8000, play_address = 0x8000,
      name = replicate 32 0, artist = replicate 32 0, copyright = replicate 32 0,
      play_speed_ntsc = 0, bankswitch_init = replicate 8 0, play_speed_pal = 0,
      pal_ntsc_bits = 0, extra_sound_chips = 0, extra = replicate 4 0\<rparr>"

definition example_file :: FILE where
  "example_file =
     \<lparr>contents = example_header_bytes @ replicate 8192 0xAB,
      fpos = 128, at_eof = False, io_ok = True\<rparr>"

definition example_nsf :: nsf_file_t where
  "example_nsf =
     \<lparr>fp = example_file, header = example_header,
      nes_memory = zero_nes_memory, apu_write_cb = True\<rparr>"

definition example_world :: world where
  "example_world = \<lparr>active_nsf_file = Some example_nsf, events = []\<rparr>"

definition idle_world :: world where
  "idle_world = \<lparr>active_nsf_file = None, events = []\<rparr>"

text \<open>The example header as a freshly opened file, and an instance that loads below \<^verbatim>\<open>$8000\<close>.\<close>

definition example_header_file :: FILE where
  "example_header_file =
     \<lparr>contents = example_header_bytes, fpos = 0, at_eof = False, io_ok = True\<rparr>"

definition low_load_nsf :: nsf_file_t where
  "low_load_nsf = example_nsf\<lparr>header := example_header\<lparr>load_address := 0x7000\<rparr>\<rparr>"

definition short_header_file :: FILE where
  "short_header_file =
     \<lparr>contents = take 100 example_header_bytes, fpos = 0, at_eof = False, io_ok = True\<rparr>"

text \<open>Two instances have the same bootstrap program, interrupt vectors and header.\<close>

definition keeps_program :: "nsf_file_t \<Rightarrow> nsf_file_t \<Rightarrow> bool" where
  "keeps_program n n' \<longleftrightarrow>
     prg (nes_memory n') = prg (nes_memory n) \<and>
     int_vecs (nes_memory n') = int_vecs (nes_memory n) \<and>
     header n' = header n"

text \<open>A bus call that is not a write to a bank register.\<close>

fun no_bank_write :: "bus_op \<Rightarrow> bool" where
  "no_bank_write (Bus_read address) = True"
| "no_bank_write (Bus_write address value) = (address < 0x5FF8 \<or> 0x5FFF < address)"

text \<open>Two instances have the same ROM buffer and the same ROM blocks.\<close>

definition same_rom :: "nsf_file_t \<Rightarrow> nsf_file_t \<Rightarrow> bool" where
  "same_rom n n' \<longleftrightarrow>
     rom (nes_memory n') = rom (nes_memory n) \<and>
     rom_block (nes_memory n') = rom_block (nes_memory n)"

text \<open>The example instance with nothing after the header in its file.\<close>

definition empty_body_nsf :: nsf_file_t where
  "empty_body_nsf = example_nsf\<lparr>fp := example_file\<lparr>contents := example_header_bytes\<rparr>\<rparr>"

text \<open>
  The bytes that the contiguous loader reads: at most \<^verbatim>\<open>0xFFFF - load_address\<close> bytes of
  the file from offset \<^verbatim>\<open>0x080\<close>.
\<close>

definition rom_payload :: "nsf_file_t \<Rightarrow> u8 list" where
  "rom_payload nsf =
     take (0xFFFF - unat (load_address (header nsf))) (drop 0x080 (contents (fp nsf)))"

subsection \<open>A bankswitched example\<close>

text \<open>
  The example header with the bank registers initialised to 1, 1, 2, 3, 4, 5, 6, 7, and a
  file whose body is one full bank of \<^verbatim>\<open>0x10\<close> (bank 0) followed by 100 bytes \<^verbatim>\<open>0x22\<close>
  (the start of bank 1); the instance as \<^verbatim>\<open>nsf_init_nes_memory\<close> leaves it.
\<close>

definition banked_header :: nsf_header_t where
  "banked_header = example_header\<lparr>bankswitch_init := [1, 1, 2, 3, 4, 5, 6, 7]\<rparr>"

definition banked_file :: FILE where
  "banked_file =
     \<lparr>contents = take 0x70 example_header_bytes @ [1, 1, 2, 3, 4, 5, 6, 7] @ replicate 8 0
                   @ replicate 4096 0x10 @ replicate 100 0x22,
      fpos = 128, at_eof = False, io_ok = True\<rparr>"

definition banked_nsf :: nsf_file_t where
  "banked_nsf =
     nsf_init_nes_memory
       \<lparr>fp = banked_file, header = banked_header,
        nes_memory = zero_nes_memory, apu_write_cb = True\<rparr>"

text \<open>
  The offset law in the words of the specification: the byte that belongs at offset \<open>k\<close>
  of the slot that receives \<open>bank\<close>, for a file with the given bytes and padding. Bank 0
  starts at file offset \<^verbatim>\<open>0x80\<close> and lands at slot offset \<open>padding\<close>; bank \<open>b > 0\<close> starts
  at file offset \<^verbatim>\<open>0x80 + (4096 - padding) + 4096 * (b - 1)\<close> and lands at slot offset 0;
  where the file has no byte, the slot keeps its zero.
\<close>

definition offset_law_byte :: "u8 list \<Rightarrow> nat \<Rightarrow> u8 \<Rightarrow> nat \<Rightarrow> u8" where
  "offset_law_byte bytes padding bank k =
     (if bank = 0 then
        (if padding \<le> k \<and> 0x80 + (k - padding) < length bytes
         then bytes ! (0x80 + (k - padding)) else 0)
      else
        (if 0x80 + (4096 - padding) + 4096 * (unat bank - 1) + k < length bytes
         then bytes ! (0x80 + (4096 - padding) + 4096 * (unat bank - 1) + k) else 0))"

text \<open>
  The bankswitched example when the loop of \<^verbatim>\<open>nsf_init_load_nes_rom_banks\<close> starts: the
  buffer of ten slots is allocated and zeroed and no slot is loaded. The second instance
  has the load address \<^verbatim>\<open>$8010\<close>, so a padding of 16.
\<close>

definition fresh_cache_nsf :: nsf_file_t where
  "fresh_cache_nsf =
     banked_nsf\<lparr>nes_memory := (nes_memory banked_nsf)
       \<lparr>rom := replicate (ROM_BANK_SIZE * ROM_BANK_COUNT) 0,
        rom_bank_id := replicate ROM_BANK_COUNT 0,
        rom_bank_loaded := replicate ROM_BANK_COUNT 0,
        rom_bank_use_order := replicate ROM_BANK_COUNT (- 1),
        rom_block := replicate 8 None,
        rom_block_bank_id := replicate 8 0\<rparr>\<rparr>"

definition padded_cache_nsf :: nsf_file_t where
  "padded_cache_nsf = fresh_cache_nsf\<lparr>header := banked_header\<lparr>load_address := 0x8010\<rparr>\<rparr>"

subsection \<open>The invariants of the bank cache\<close>

text \<open>Every one of the ten slots is loaded.\<close>

definition cache_full :: "nsf_nes_memory_t \<Rightarrow> bool" where
  "cache_full m \<longleftrightarrow> list_all (\<lambda>i. rom_bank_loaded m ! i \<noteq> 0) [0..<ROM_BANK_COUNT]"

text \<open>The bank IDs of the loaded slots, in slot order, as the use list stores them.\<close>

definition cached_banks :: "nsf_nes_memory_t \<Rightarrow> int list" where
  "cached_banks m =
     map (\<lambda>i. uint (rom_bank_id m ! i))
       (filter (\<lambda>i. rom_bank_loaded m ! i \<noteq> 0) [0..<ROM_BANK_COUNT])"

text \<open>
  The first two invariants of the specification: no bank is cached in two slots; the use
  list is a prefix of bank IDs followed by \<open>-1\<close> entries only, the prefix is as long as
  the number of loaded slots, and it names exactly the cached banks.
\<close>

definition lru_consistent :: "nsf_nes_memory_t \<Rightarrow> bool" where
  "lru_consistent m \<longleftrightarrow>
     distinct (cached_banks m) \<and>
     length (takeWhile (\<lambda>b. b \<noteq> - 1) (rom_bank_use_order m)) = length (cached_banks m) \<and>
     set (takeWhile (\<lambda>b. b \<noteq> - 1) (rom_bank_use_order m)) = set (cached_banks m) \<and>
     list_all (\<lambda>b. b = - 1) (dropWhile (\<lambda>b. b \<noteq> - 1) (rom_bank_use_order m))"

text \<open>
  The third invariant: every ROM block that is set points into a slot whose bank ID is
  the bank ID recorded for the block.
\<close>

definition window_consistent :: "nsf_nes_memory_t \<Rightarrow> bool" where
  "window_consistent m \<longleftrightarrow>
     list_all (\<lambda>i. case rom_block m ! i of
                     None \<Rightarrow> True
                   | Some p \<Rightarrow> rom_bank_id m ! (p div ROM_BANK_SIZE) = rom_block_bank_id m ! i)
       [0..<8]"

text \<open>
  The bankswitched example with a full cache: the state after the initial loads of banks
  1, 1, 2, 3, 4, 5, 6, 7 into the eight blocks and writes of 8, 9 and 10 to the bank
  register \<^verbatim>\<open>$5FF8\<close>. Slot \<open>i\<close> holds bank \<open>i + 1\<close>; block 0 points at slot 9
  (bank 10), block 1 at slot 0 (bank 1), block \<open>i\<close> from 2 to 7 at slot \<open>i - 1\<close>
  (bank \<open>i\<close>); bank 1 is the least recently used.
\<close>

definition full_cache_nsf :: nsf_file_t where
  "full_cache_nsf =
     fresh_cache_nsf\<lparr>nes_memory := (nes_memory fresh_cache_nsf)
       \<lparr>bank_regs := [10, 0, 0, 0, 0, 0, 0, 0],
        rom_bank_id := [1, 2, 3, 4, 5, 6, 7, 8, 9, 10],
        rom_bank_loaded := [1, 1, 1, 1, 1, 1, 1, 1, 1, 1],
        rom_bank_use_order := [10, 9, 8, 7, 6, 5, 4, 3, 2, 1],
        rom_block := [Some 36864, Some 0, Some 4096, Some 8192, Some 12288, Some 16384,
                      Some 20480, Some 24576],
        rom_block_bank_id := [10, 1, 2, 3, 4, 5, 6, 7]\<rparr>\<rparr>"

text \<open>The bookkeeping of the bank cache: blocks, their bank IDs, slot IDs, flags, use list.\<close>

definition cache_view ::
  "nsf_nes_memory_t \<Rightarrow> nat option list \<times> u8 list \<times> u8 list \<times> u8 list \<times> int list" where
  "cache_view m =
     (rom_block m, rom_block_bank_id m, rom_bank_id m, rom_bank_loaded m, rom_bank_use_order m)"

text \<open>The bankswitched example as \<^verbatim>\<open>nsf_open\<close> returns it, before any playback.\<close>

definition banked_opened_nsf :: nsf_file_t where
  "banked_opened_nsf =
     \<lparr>fp = banked_file, header = banked_header,
      nes_memory = zero_nes_memory, apu_write_cb = False\<rparr>"

text \<open>The bankswitched example after the initial bank loads of \<^verbatim>\<open>nsf_playback_init\<close>.\<close>

definition banked_loaded_nsf :: nsf_file_t where
  "banked_loaded_nsf =
     snd (nsf_init_load_nes_rom_banks
       (nsf_init_nes_prg (nsf_init_nes_memory (banked_opened_nsf\<lparr>apu_write_cb := True\<rparr>)) 0 0))"

text \<open>
  What the code keeps true of the blocks as long as some slot is still empty: every ROM
  block that is set records a bank that is cached. Together with the array sizes and the
  invariants of the use list this is the invariant of the bank cache.
\<close>

definition windows_cached :: "nsf_nes_memory_t \<Rightarrow> bool" where
  "windows_cached m \<longleftrightarrow>
     list_all (\<lambda>i. rom_block m ! i = None \<or>
                    uint (rom_block_bank_id m ! i) \<in> set (cached_banks m)) [0..<8]"

definition cache_invariant :: "nsf_nes_memory_t \<Rightarrow> bool" where
  "cache_invariant m \<longleftrightarrow>
     nes_memory_sizes m \<and> lru_consistent m \<and> (cache_full m \<or> windows_cached m)"

section \<open>Properties\<close>

subsection \<open>Regions that a bank load leaves alone\<close>

lemma mark_used_fixed: "same_fixed_regions m (mark_rom_bank_used m bank)"
  by (simp add: same_fixed_regions_def mark_rom_bank_used_def Let_def split: option.splits)

lemma clear_ref_fixed: "same_fixed_regions m (clear_rom_block_reference m k)"
  by (simp add: same_fixed_regions_def clear_rom_block_reference_def split: option.splits)

lemma evict_fixed: "evict_oldest_bank m = Inr (k, m') \<Longrightarrow> same_fixed_regions m m'"
  using clear_ref_fixed
  by (auto simp add: same_fixed_regions_def evict_oldest_bank_def Let_def split: option.splits if_splits)

lemma load_data_fixed:
  "same_fixed_regions (nes_memory nsf) (nes_memory (snd (load_bank_data nsf k bank)))
   \<and> header (snd (load_bank_data nsf k bank)) = header nsf
   \<and> apu_write_cb (snd (load_bank_data nsf k bank)) = apu_write_cb nsf"
  by (simp add: same_fixed_regions_def load_bank_data_def Let_def split: option.splits prod.splits)

lemma commit_fixed: "same_fixed_regions m (commit_bank m k t bank)"
  using mark_used_fixed[of "m\<lparr>rom_bank_loaded := (rom_bank_loaded m)[k := 1],
          rom_bank_id := (rom_bank_id m)[k := bank],
          rom_block := (rom_block m)[t := Some (k * 4096)],
          rom_block_bank_id := (rom_block_bank_id m)[t := bank]\<rparr>" bank]
  by (simp add: same_fixed_regions_def commit_bank_def)

lemma load_rom_bank_fixed:
  "same_fixed_regions (nes_memory nsf) (nes_memory (snd (nsf_load_rom_bank nsf reg bank)))
   \<and> header (snd (nsf_load_rom_bank nsf reg bank)) = header nsf
   \<and> apu_write_cb (snd (nsf_load_rom_bank nsf reg bank)) = apu_write_cb nsf"
proof (cases "reg < 0x5FF8 \<or> reg > 0x5FFF")
  case True
  then show ?thesis by (simp add: nsf_load_rom_bank_def same_fixed_regions_def)
next
  case range: False
  show ?thesis
  proof (cases "find_loaded_bank (nes_memory nsf) bank")
    case (Some k)
    then show ?thesis
      using range mark_used_fixed[of "(nes_memory nsf)\<lparr>rom_block := (rom_block (nes_memory nsf))[unat (ucast (reg - 0x5FF8) :: u8) := Some (k * 4096)],
                        rom_block_bank_id := (rom_block_bank_id (nes_memory nsf))[unat (ucast (reg - 0x5FF8) :: u8) := bank]\<rparr>" bank]
      by (simp add: nsf_load_rom_bank_def same_fixed_regions_def Let_def)
  next
    case None
    show ?thesis
    proof (cases "case find_empty_slot (nes_memory nsf) of Some k \<Rightarrow> Inr (k, nes_memory nsf) | None \<Rightarrow> evict_oldest_bank (nes_memory nsf)")
      case (Inl e)
      then show ?thesis using range None
        by (simp add: nsf_load_rom_bank_def same_fixed_regions_def Let_def)
    next
      case (Inr p)
      obtain k m1 where p: "p = (k, m1)" by (cases p)
      have m1: "same_fixed_regions (nes_memory nsf) m1"
        using Inr p evict_fixed[of "nes_memory nsf" k m1]
        by (auto simp: same_fixed_regions_def split: option.splits)
      let ?n1 = "nsf\<lparr>nes_memory := m1\<rparr>"
      obtain ok n2 where r: "load_bank_data ?n1 k bank = (ok, n2)"
        by (cases "load_bank_data ?n1 k bank")
      have ld: "same_fixed_regions m1 (nes_memory n2) \<and> header n2 = header nsf
          \<and> apu_write_cb n2 = apu_write_cb nsf"
        using load_data_fixed[of ?n1 k bank] r by simp
      show ?thesis
        using range None Inr p m1 ld r
          commit_fixed[of "nes_memory n2" k "unat (ucast (reg - 0x5FF8) :: u8)" bank]
        by (simp add: nsf_load_rom_bank_def same_fixed_regions_def Let_def)
    qed
  qed
qed


subsection \<open>The bus without an active instance\<close>

text \<open>
  Claim C10. When \<^verbatim>\<open>active_nsf_file\<close> is null, \<^verbatim>\<open>read6502\<close> returns 0 at every address
  and changes nothing, and \<^verbatim>\<open>write6502\<close> at every address and value changes nothing:
  the memory state and the trace of callback calls and bank loads stay as they were.
\<close>

theorem bus_without_active_instance:
  "active_nsf_file w = None \<Longrightarrow>
     read6502 address w = (0, w) \<and> write6502 address value w = w"
  by (simp add: read6502_def write6502_def)

theorem bus_without_active_instance_witness:
  "active_nsf_file idle_world = None \<and>
   read6502 0x8000 idle_world = (0, idle_world) \<and>
   write6502 0x8000 7 idle_world = idle_world"
  using bus_without_active_instance [of idle_world "0x8000" 7]
  by (simp add: idle_world_def)

subsection \<open>Writes to the APU registers\<close>

lemma apu_index:
  assumes "(0x4000::u16) \<le> a" "a \<le> 0x4017"
  shows "unat (a - 0x4000) < 24" "\<not> a \<le> 0x07FF" "\<not> a \<le> 0x107F"
  using assms by (simp_all add: word_le_nat_alt unat_sub)

text \<open>
  Claim C4. With an active instance whose APU callback is installed, a write to an
  address in \<^verbatim>\<open>$4000\<close> to \<^verbatim>\<open>$4017\<close> stores the value in the APU shadow (and a read of
  the address then returns it); a write to \<^verbatim>\<open>$4016\<close> makes no callback call, and a write
  to any other address of the range makes exactly one, with the written address and
  value. No bank load is requested.
\<close>

theorem apu_write_masking:
  assumes act: "active_nsf_file w = Some nsf" and cb: "apu_write_cb nsf"
    and lo: "0x4000 \<le> address" and hi: "address \<le> 0x4017"
  shows "\<exists>nsf'. active_nsf_file (write6502 address value w) = Some nsf' \<and>
           apu_regs (nes_memory nsf') =
             (apu_regs (nes_memory nsf))[unat (address - 0x4000) := value] \<and>
           apu_calls (write6502 address value w) =
             apu_calls w @ (if address = 0x4016 then [] else [(address, value)]) \<and>
           bank_load_count (write6502 address value w) = bank_load_count w \<and>
           (length (apu_regs (nes_memory nsf)) = 24 \<longrightarrow>
              fst (read6502 address (write6502 address value w)) = value)"
proof -
  note ix = apu_index [OF lo hi]
  let ?m = "nes_memory nsf"
  let ?nsf' = "nsf\<lparr>nes_memory := ?m\<lparr>apu_regs := (apu_regs ?m)[unat (address - 0x4000) := value]\<rparr>\<rparr>"
  have w': "write6502 address value w =
     (if address = 0x4016 then w\<lparr>active_nsf_file := Some ?nsf'\<rparr>
      else w\<lparr>active_nsf_file := Some ?nsf', events := events w @ [Apu_write_cb address value]\<rparr>)"
    using act cb lo hi ix by (simp add: write6502_def Let_def)
  have rd: "length (apu_regs ?m) = 24 \<Longrightarrow>
      fst (read6502 address (write6502 address value w)) = value"
    using lo hi ix by (simp add: w' read6502_def Let_def)
  show ?thesis
    using rd by (simp add: w' apu_calls_def bank_load_count_def)
qed

theorem apu_write_masking_witness:
  "active_nsf_file example_world = Some example_nsf \<and> apu_write_cb example_nsf \<and>
   (0x4000::u16) \<le> 0x4015 \<and> (0x4015::u16) \<le> 0x4017 \<and>
   length (apu_regs (nes_memory example_nsf)) = 24 \<and>
   apu_calls (write6502 0x4015 0x0F example_world) = [(0x4015, 0x0F)] \<and>
   fst (read6502 0x4015 (write6502 0x4015 0x0F example_world)) = 0x0F"
proof -
  have h: "active_nsf_file example_world = Some example_nsf" "apu_write_cb example_nsf"
    "length (apu_regs (nes_memory example_nsf)) = 24" "apu_calls example_world = []"
    by (simp_all add: example_world_def example_nsf_def zero_nes_memory_def apu_calls_def)
  show ?thesis
    using h apu_write_masking [of example_world example_nsf "0x4015" "0x0F"]
    by auto
qed

subsection \<open>Header parsing\<close>

lemma le16_unat:
  fixes lo hi :: u8
  shows "unat (ucast lo OR push_bit 8 (ucast hi) :: u16) = unat lo + 256 * unat hi"
proof -
  have "(ucast lo OR push_bit 8 (ucast hi) :: u16) = word_cat hi lo"
    by (simp add: word_cat_eq_push_bit_or or.commute)
  also have "\<dots> = push_bit 8 (ucast hi) + ucast lo"
    by (simp add: word_cat_eq)
  finally have e: "(ucast lo OR push_bit 8 (ucast hi) :: u16) = ucast hi * 256 + ucast lo"
    by (simp add: push_bit_eq_mult)
  have lo: "unat lo < 256" and hi: "unat hi < 256"
    using unsigned_less [of lo, where 'a=nat] unsigned_less [of hi, where 'a=nat] by simp_all
  have ul: "unat (ucast lo :: u16) = unat lo" and uh: "unat (ucast hi :: u16) = unat hi"
    using lo hi by (simp_all add: unsigned_ucast_eq take_bit_eq_mod)
  show ?thesis
    using lo hi by (simp add: e unat_word_ariths ul uh)
qed

lemma buf16_unat:
  "n + 1 < 128 \<Longrightarrow> 128 \<le> length bs \<Longrightarrow>
   unat (buf16 (take 128 bs) n) = unat (bs ! n) + 256 * unat (bs ! (n + 1))"
  by (simp add: buf16_def le16_unat)

lemma example_parse: "fst (nsf_read_header_impl example_header_file) = Inr example_header"
  by code_simp

text \<open>
  Claim C5. On a stream at offset 0 the parser asks for 128 bytes. It fails (with the
  code \<^verbatim>\<open>-1\<close>, the bad-header error) when fewer than 128 bytes arrive or when the first
  five bytes are not \<^verbatim>\<open>NESM\x1A\<close>. Otherwise it returns a header, leaves the stream at
  offset 128, and the three addresses and the two play speeds are the little-endian
  values of their two bytes. The example header of 128 bytes
  \<^verbatim>\<open>4E 45 53 4D 1A 01 02 01 00 80 00 80 00 80\<close>, zero elsewhere, parses to version 1, two
  songs, starting song 1 and load, init and play address \<^verbatim>\<open>$8000\<close>.
\<close>

theorem header_parsing:
  assumes pos: "fpos f = 0"
  shows "(\<not> io_ok f \<or> length (contents f) < 128 \<or> take 5 (contents f) \<noteq> nsf_magic \<longrightarrow>
            fst (nsf_read_header_impl f) = Inl ESP_FAIL) \<and>
         (io_ok f \<and> 128 \<le> length (contents f) \<and> take 5 (contents f) = nsf_magic \<longrightarrow>
            (\<exists>h. fst (nsf_read_header_impl f) = Inr h \<and>
                 fpos (snd (nsf_read_header_impl f)) = 128 \<and>
                 version h = contents f ! 5 \<and>
                 total_songs h = contents f ! 6 \<and>
                 starting_song h = contents f ! 7 \<and>
                 unat (load_address h) = unat (contents f ! 8) + 256 * unat (contents f ! 9) \<and>
                 unat (init_address h) = unat (contents f ! 10) + 256 * unat (contents f ! 11) \<and>
                 unat (play_address h) = unat (contents f ! 12) + 256 * unat (contents f ! 13) \<and>
                 unat (play_speed_ntsc h) =
                   unat (contents f ! 110) + 256 * unat (contents f ! 111) \<and>
                 unat (play_speed_pal h) =
                   unat (contents f ! 120) + 256 * unat (contents f ! 121))) \<and>
         fst (nsf_read_header_impl example_header_file) = Inr example_header \<and>
         version example_header = 1 \<and> total_songs example_header = 2 \<and>
         starting_song example_header = 1 \<and> load_address example_header = 0x8000 \<and>
         init_address example_header = 0x8000 \<and> play_address example_header = 0x8000"
proof -
  let ?bs = "contents f"
  have dead: "\<not> io_ok f \<Longrightarrow> fst (nsf_read_header_impl f) = Inl ESP_FAIL"
    by (simp add: nsf_read_header_impl_def fread_def)
  have rd: "io_ok f \<Longrightarrow> fread 128 f = (take 128 ?bs, f\<lparr>fpos := length (take 128 ?bs),
              at_eof := at_eof f \<or> length (take 128 ?bs) < 128\<rparr>)"
    using pos by (simp add: fread_def Let_def)
  have short: "io_ok f \<Longrightarrow> length ?bs < 128 \<Longrightarrow> fst (nsf_read_header_impl f) = Inl ESP_FAIL"
    by (simp add: nsf_read_header_impl_def rd)
  have magic: "io_ok f \<Longrightarrow> 128 \<le> length ?bs \<Longrightarrow> take 5 ?bs \<noteq> nsf_magic \<Longrightarrow>
      fst (nsf_read_header_impl f) = Inl ESP_FAIL"
    by (simp add: nsf_read_header_impl_def rd min_def)
  have good: "io_ok f \<Longrightarrow> 128 \<le> length ?bs \<Longrightarrow> take 5 ?bs = nsf_magic \<Longrightarrow>
      (\<exists>h. fst (nsf_read_header_impl f) = Inr h \<and>
                 fpos (snd (nsf_read_header_impl f)) = 128 \<and>
                 version h = ?bs ! 5 \<and> total_songs h = ?bs ! 6 \<and> starting_song h = ?bs ! 7 \<and>
                 unat (load_address h) = unat (?bs ! 8) + 256 * unat (?bs ! 9) \<and>
                 unat (init_address h) = unat (?bs ! 10) + 256 * unat (?bs ! 11) \<and>
                 unat (play_address h) = unat (?bs ! 12) + 256 * unat (?bs ! 13) \<and>
                 unat (play_speed_ntsc h) = unat (?bs ! 110) + 256 * unat (?bs ! 111) \<and>
                 unat (play_speed_pal h) = unat (?bs ! 120) + 256 * unat (?bs ! 121))"
    using buf16_unat [of 8 ?bs] buf16_unat [of 10 ?bs] buf16_unat [of 12 ?bs]
      buf16_unat [of 110 ?bs] buf16_unat [of 120 ?bs]
    by (simp add: nsf_read_header_impl_def rd min_def)
  have fields: "version example_header = 1 \<and> total_songs example_header = 2 \<and>
         starting_song example_header = 1 \<and> load_address example_header = 0x8000 \<and>
         init_address example_header = 0x8000 \<and> play_address example_header = 0x8000"
    by (simp add: example_header_def)
  have fails: "\<not> io_ok f \<or> length ?bs < 128 \<or> take 5 ?bs \<noteq> nsf_magic \<longrightarrow>
            fst (nsf_read_header_impl f) = Inl ESP_FAIL"
    using dead short magic by (cases "io_ok f"; cases "length ?bs < 128") auto
  show ?thesis
    using fails good example_parse fields by blast
qed

theorem header_parsing_witness:
  "fpos example_header_file = 0 \<and> io_ok example_header_file \<and>
   128 \<le> length (contents example_header_file) \<and>
   take 5 (contents example_header_file) = nsf_magic \<and>
   (\<exists>h. fst (nsf_read_header_impl example_header_file) = Inr h \<and>
        fpos (snd (nsf_read_header_impl example_header_file)) = 128 \<and>
        version h = 1 \<and> total_songs h = 2 \<and> starting_song h = 1 \<and>
        unat (load_address h) = 32768 \<and> unat (init_address h) = 32768 \<and>
        unat (play_address h) = 32768) \<and>
   fpos short_header_file = 0 \<and> length (contents short_header_file) < 128 \<and>
   fst (nsf_read_header_impl short_header_file) = Inl ESP_FAIL"
proof -
  have g: "fpos example_header_file = 0" "io_ok example_header_file"
    "128 \<le> length (contents example_header_file)"
    "take 5 (contents example_header_file) = nsf_magic"
    by (simp_all add: example_header_file_def example_header_bytes_def nsf_magic_def)
  have b: "contents example_header_file ! 5 = 1" "contents example_header_file ! 6 = 2"
    "contents example_header_file ! 7 = 1"
    "contents example_header_file ! 8 = 0" "contents example_header_file ! 9 = 0x80"
    "contents example_header_file ! 10 = 0" "contents example_header_file ! 11 = 0x80"
    "contents example_header_file ! 12 = 0" "contents example_header_file ! 13 = 0x80"
    by (simp_all add: example_header_file_def example_header_bytes_def nth_append)
  have s: "fpos short_header_file = 0" "length (contents short_header_file) < 128"
    by (simp_all add: short_header_file_def example_header_bytes_def)
  show ?thesis
    using g b s header_parsing [of example_header_file] header_parsing [of short_header_file]
    by auto
qed

subsection \<open>Rejected loads\<close>

text \<open>
  Claim C9, as the code has it. A bank load called with a register outside
  \<^verbatim>\<open>$5FF8\<close> to \<^verbatim>\<open>$5FFF\<close> returns \<^verbatim>\<open>ESP_ERR_INVALID_ARG\<close>; the contiguous ROM load with
  a load address below \<^verbatim>\<open>$8000\<close> returns the general failure \<^verbatim>\<open>ESP_FAIL\<close>. Both return
  the instance exactly as they received it.
\<close>

theorem rejected_loads_leave_state:
  "(reg < 0x5FF8 \<or> 0x5FFF < reg \<longrightarrow>
      nsf_load_rom_bank nsf reg bank = (ESP_ERR_INVALID_ARG, nsf)) \<and>
   (load_address (header nsf) < 0x8000 \<longrightarrow>
      nsf_init_load_nes_rom nsf = (ESP_FAIL, nsf))"
  by (simp add: nsf_load_rom_bank_def nsf_init_load_nes_rom_def)

theorem rejected_loads_leave_state_witness:
  "(0x4000::u16) < 0x5FF8 \<and>
   nsf_load_rom_bank low_load_nsf 0x4000 3 = (ESP_ERR_INVALID_ARG, low_load_nsf) \<and>
   load_address (header low_load_nsf) < 0x8000 \<and>
   nsf_init_load_nes_rom low_load_nsf = (ESP_FAIL, low_load_nsf)"
proof -
  have h: "(0x4000::u16) < 0x5FF8" "load_address (header low_load_nsf) < 0x8000"
    by (simp_all add: low_load_nsf_def)
  show ?thesis
    using h rejected_loads_leave_state [of "0x4000" low_load_nsf 3] by simp
qed

text \<open>
  The error code for a load address below \<^verbatim>\<open>$8000\<close> is not the invalid-argument code.
\<close>

theorem low_load_address_error_code:
  "load_address (header low_load_nsf) < 0x8000 \<and>
   fst (nsf_init_load_nes_rom low_load_nsf) = ESP_FAIL \<and>
   fst (nsf_init_load_nes_rom low_load_nsf) \<noteq> ESP_ERR_INVALID_ARG"
  by (simp add: nsf_init_load_nes_rom_def low_load_nsf_def)

subsection \<open>The bootstrap program\<close>

lemma split_u16:
  fixes w :: u16
  shows "unat (ucast (w AND 0x00FF) :: u8) + 256 * unat (ucast (drop_bit 8 (w AND 0xFF00)) :: u8)
           = unat w"
proof -
  have m1: "(0x00FF::u16) = mask 8" by (simp add: mask_eq_exp_minus_1)
  have m2: "(0xFF00::u16) = push_bit 8 (mask 8)" by (simp add: mask_eq_exp_minus_1 push_bit_eq_mult)
  have lo: "(ucast (w AND 0x00FF) :: u8) = ucast w"
    unfolding m1 by (rule bit_word_eqI) (auto simp: bit_simps)
  have hi: "(ucast (drop_bit 8 (w AND 0xFF00)) :: u8) = ucast (drop_bit 8 w)"
    unfolding m2 by (rule bit_word_eqI) (auto simp: bit_simps)
  have b: "unat w < 65536"
    using unsigned_less [of w, where 'a=nat] by simp
  have ul: "unat (ucast w :: u8) = unat w mod 256"
    by (simp add: unsigned_ucast_eq take_bit_eq_mod)
  have uh: "unat (ucast (drop_bit 8 w) :: u8) = unat w div 256"
  proof -
    have "unat (drop_bit 8 w) = drop_bit 8 (unat w)"
      by (rule unat_drop_bit_eq)
    also have "\<dots> = unat w div 256"
      by (simp add: drop_bit_eq_div)
    finally have d: "unat (drop_bit 8 w) = unat w div 256" .
    have "unat (ucast (drop_bit 8 w) :: u8) = unat (drop_bit 8 w) mod 256"
      by (simp only: unsigned_ucast_eq take_bit_eq_mod) simp
    then show ?thesis using b by (simp add: d)
  qed
  show ?thesis
    unfolding lo hi ul uh by simp
qed

lemma init_prg_bytes:
  assumes "prg (nes_memory nsf) = replicate 128 0" "int_vecs (nes_memory nsf) = replicate 6 0"
  shows "\<exists>il ih pl ph.
     prg (nes_memory (nsf_init_nes_prg nsf song pal_ntsc)) =
       [0xA9, song, 0xA2, pal_ntsc, 0x20, il, ih, 0x20, pl, ph, 0x4C, 0x07, 0x10,
        0xEA, 0xEA, 0xEA, 0xEA] @ replicate 111 0 \<and>
     unat il + 256 * unat ih = unat (init_address (header nsf)) \<and>
     unat pl + 256 * unat ph = unat (play_address (header nsf)) \<and>
     int_vecs (nes_memory (nsf_init_nes_prg nsf song pal_ntsc)) = [0, 0, 0x00, 0x10, 0, 0] \<and>
     header (nsf_init_nes_prg nsf song pal_ntsc) = header nsf"
proof -
  have r: "replicate 128 (0::u8) = replicate 17 0 @ replicate 111 0"
    by (simp add: replicate_add [symmetric])
  have r17: "replicate 17 (0::u8) = [0,0,0,0,0,0,0,0,0,0,0,0,0,0,0,0,0]"
    by (simp add: numeral_eq_Suc)
  have r6: "replicate 6 (0::u8) = [0,0,0,0,0,0]"
    by (simp add: numeral_eq_Suc)
  show ?thesis
    using split_u16 [of "init_address (header nsf)"] split_u16 [of "play_address (header nsf)"]
    by (simp add: nsf_init_nes_prg_def Let_def assms r r17 r6 list_update_append)
qed


lemma keeps_program_refl: "keeps_program n n"
  by (simp add: keeps_program_def)

lemma keeps_program_trans: "keeps_program a b \<Longrightarrow> keeps_program b c \<Longrightarrow> keeps_program a c"
  by (simp add: keeps_program_def)

lemma load_rom_bank_keeps: "keeps_program nsf (snd (nsf_load_rom_bank nsf reg bank))"
  using load_rom_bank_fixed [of nsf reg bank]
  by (simp add: keeps_program_def same_fixed_regions_def)

lemma load_initial_banks_keeps: "keeps_program nsf (snd (load_initial_banks nsf ixs))"
proof (induction ixs arbitrary: nsf)
  case Nil
  show ?case by (simp add: keeps_program_refl)
next
  case (Cons i rest)
  obtain ret n1 where
    r: "nsf_load_rom_bank nsf (0x5FF8 + of_nat i) (bankswitch_init (header nsf) ! i) = (ret, n1)"
    by (cases "nsf_load_rom_bank nsf (0x5FF8 + of_nat i) (bankswitch_init (header nsf) ! i)")
  have k: "keeps_program nsf n1"
    using load_rom_bank_keeps [of nsf "0x5FF8 + of_nat i" "bankswitch_init (header nsf) ! i"] r
    by simp
  have e: "load_initial_banks nsf (i # rest) =
      (if ret \<noteq> ESP_OK then (ret, n1) else load_initial_banks n1 rest)"
    by (simp add: r)
  show ?case
  proof (cases "ret = ESP_OK")
    case True
    have "keeps_program n1 (snd (load_initial_banks n1 rest))" by (rule Cons.IH)
    with k have "keeps_program nsf (snd (load_initial_banks n1 rest))"
      by (rule keeps_program_trans)
    then show ?thesis unfolding e using True by simp
  next
    case False
    then show ?thesis unfolding e using k by simp
  qed
qed

lemma init_load_rom_banks_keeps: "keeps_program nsf (snd (nsf_init_load_nes_rom_banks nsf))"
  using load_initial_banks_keeps [of "nsf\<lparr>nes_memory := (nes_memory nsf)
          \<lparr>rom := replicate (ROM_BANK_SIZE * ROM_BANK_COUNT) 0,
           rom_bank_id := replicate ROM_BANK_COUNT 0,
           rom_bank_loaded := replicate ROM_BANK_COUNT 0,
           rom_bank_use_order := replicate ROM_BANK_COUNT (- 1),
           rom_block := replicate 8 None,
           rom_block_bank_id := replicate 8 0\<rparr>\<rparr>" "[0..<8]"]
  by (simp add: nsf_init_load_nes_rom_banks_def keeps_program_def)

lemma init_load_rom_keeps: "keeps_program nsf (snd (nsf_init_load_nes_rom nsf))"
  by (simp add: nsf_init_load_nes_rom_def keeps_program_def Let_def split_beta
      split: option.splits)


lemma read6502_keeps:
  "active_nsf_file w = Some n \<Longrightarrow>
   \<exists>n'. active_nsf_file (snd (read6502 a w)) = Some n' \<and> keeps_program n n'"
  using mark_used_fixed [of "nes_memory n"]
  by (auto simp: read6502_def Let_def keeps_program_def same_fixed_regions_def
      split: option.splits)

lemma write6502_keeps:
  "active_nsf_file w = Some n \<Longrightarrow>
   \<exists>n'. active_nsf_file (write6502 a v w) = Some n' \<and> keeps_program n n'"
  using load_rom_bank_keeps [of "n\<lparr>nes_memory :=
      (nes_memory n)\<lparr>bank_regs := (bank_regs (nes_memory n))[unat (a - 0x5FF8) := v]\<rparr>\<rparr>" a v]
  by (auto simp: write6502_def Let_def keeps_program_def)

lemma bus_step_keeps:
  "active_nsf_file w = Some n \<Longrightarrow>
   \<exists>n'. active_nsf_file (bus_step w op) = Some n' \<and> keeps_program n n'"
  by (cases op) (simp_all add: read6502_keeps write6502_keeps)

lemma cpu_run_keeps:
  "active_nsf_file w = Some n \<Longrightarrow>
   \<exists>n'. active_nsf_file (cpu_run ops w) = Some n' \<and> keeps_program n n'"
proof (induction ops arbitrary: w n)
  case Nil
  then show ?case by (simp add: cpu_run_def keeps_program_refl)
next
  case (Cons op ops)
  obtain n1 where n1: "active_nsf_file (bus_step w op) = Some n1" "keeps_program n n1"
    using bus_step_keeps [OF Cons.prems] by blast
  obtain n2 where n2: "active_nsf_file (cpu_run ops (bus_step w op)) = Some n2" "keeps_program n1 n2"
    using Cons.IH [OF n1(1)] by blast
  show ?case
    using n1 n2 keeps_program_trans by (auto simp: cpu_run_def)
qed

lemma playback_init_keeps:
  "\<exists>n'. active_nsf_file (snd (nsf_playback_init cpu_ops nsf song cb)) = Some n' \<and>
        keeps_program (nsf_init_nes_prg (nsf_init_nes_memory (nsf\<lparr>apu_write_cb := cb\<rparr>)) song 0) n'"
proof -
  let ?n1 = "nsf_init_nes_prg (nsf_init_nes_memory (nsf\<lparr>apu_write_cb := cb\<rparr>)) song 0"
  let ?r = "if nsf_has_bank_switching ?n1 then nsf_init_load_nes_rom_banks ?n1
            else nsf_init_load_nes_rom ?n1"
  have k: "keeps_program ?n1 (snd ?r)"
    using init_load_rom_banks_keeps [of ?n1] init_load_rom_keeps [of ?n1] by simp
  let ?w = "\<lparr>active_nsf_file = Some (snd ?r), events = []\<rparr>"
  have e: "snd (nsf_playback_init cpu_ops nsf song cb) =
      (if fst ?r \<noteq> ESP_OK then ?w else cpu_run cpu_ops ?w)"
    by (simp add: nsf_playback_init_def Let_def split_beta)
  obtain n' where n': "active_nsf_file (cpu_run cpu_ops ?w) = Some n'" "keeps_program (snd ?r) n'"
    using cpu_run_keeps [of ?w "snd ?r" cpu_ops] by auto
  show ?thesis
  proof (cases "fst ?r \<noteq> ESP_OK")
    case True
    then show ?thesis using k e by auto
  next
    case False
    then show ?thesis using k e n' keeps_program_trans by auto
  qed
qed



lemma le_bytes_8000:
  fixes lo hi :: u8
  assumes a: "unat lo + 256 * unat hi = 32768"
  shows "lo = 0 \<and> hi = 0x80"
proof -
  have "unat lo < 256" using unsigned_less [of lo, where 'a=nat] by simp
  with a have u: "unat lo = 0" "unat hi = 128" by arith+
  from u(1) have l: "lo = 0" by (simp add: unat_eq_0)
  from u(2) have "unat hi = unat (0x80 :: u8)" by simp
  then have "hi = 0x80" by (simp add: word_unat_eq_iff)
  with l show ?thesis by simp
qed

text \<open>
  Claim C8. After \<^verbatim>\<open>nsf_playback_init\<close> for a song, whatever the processor did on the
  bus and whether or not the ROM load succeeded, the bootstrap region holds
  \<^verbatim>\<open>A9 song, A2 00, 20 init_lo init_hi, 20 play_lo play_hi, 4C 07 10, EA EA EA EA\<close> and
  zeros after that. So the JSR to the play address is the byte \<^verbatim>\<open>20\<close> read at \<^verbatim>\<open>$1007\<close>,
  the JMP operand read at \<^verbatim>\<open>$100B\<close> and \<^verbatim>\<open>$100C\<close> is \<^verbatim>\<open>$1007\<close>, and the reset vector read
  at \<^verbatim>\<open>$FFFC\<close> and \<^verbatim>\<open>$FFFD\<close> is \<^verbatim>\<open>$1000\<close>, low byte first.
\<close>

theorem trampoline_layout:
  "\<exists>nsf' il ih pl ph.
     active_nsf_file (snd (nsf_playback_init cpu_ops nsf song cb)) = Some nsf' \<and>
     prg (nes_memory nsf') =
       [0xA9, song, 0xA2, 0, 0x20, il, ih, 0x20, pl, ph, 0x4C, 0x07, 0x10,
        0xEA, 0xEA, 0xEA, 0xEA] @ replicate 111 0 \<and>
     unat il + 256 * unat ih = unat (init_address (header nsf)) \<and>
     unat pl + 256 * unat ph = unat (play_address (header nsf)) \<and>
     int_vecs (nes_memory nsf') = [0, 0, 0x00, 0x10, 0, 0] \<and>
     fst (read6502 0x1007 (snd (nsf_playback_init cpu_ops nsf song cb))) = 0x20 \<and>
     fst (read6502 0x100B (snd (nsf_playback_init cpu_ops nsf song cb))) = 0x07 \<and>
     fst (read6502 0x100C (snd (nsf_playback_init cpu_ops nsf song cb))) = 0x10 \<and>
     fst (read6502 0xFFFC (snd (nsf_playback_init cpu_ops nsf song cb))) = 0x00 \<and>
     fst (read6502 0xFFFD (snd (nsf_playback_init cpu_ops nsf song cb))) = 0x10"
proof -
  let ?n0 = "nsf_init_nes_memory (nsf\<lparr>apu_write_cb := cb\<rparr>)"
  let ?n1 = "nsf_init_nes_prg ?n0 song 0"
  let ?w = "snd (nsf_playback_init cpu_ops nsf song cb)"
  have z: "prg (nes_memory ?n0) = replicate 128 0" "int_vecs (nes_memory ?n0) = replicate 6 0"
    "header ?n0 = header nsf"
    by (simp_all add: nsf_init_nes_memory_def zero_nes_memory_def)
  obtain il ih pl ph where b:
    "prg (nes_memory ?n1) =
       [0xA9, song, 0xA2, 0, 0x20, il, ih, 0x20, pl, ph, 0x4C, 0x07, 0x10,
        0xEA, 0xEA, 0xEA, 0xEA] @ replicate 111 0"
    "unat il + 256 * unat ih = unat (init_address (header nsf))"
    "unat pl + 256 * unat ph = unat (play_address (header nsf))"
    "int_vecs (nes_memory ?n1) = [0, 0, 0x00, 0x10, 0, 0]"
    using init_prg_bytes [OF z(1) z(2), of song 0] z(3) by auto
  obtain n' where n': "active_nsf_file ?w = Some n'" "keeps_program ?n1 n'"
    using playback_init_keeps [of cpu_ops nsf song cb] by blast
  have p: "prg (nes_memory n') =
       [0xA9, song, 0xA2, 0, 0x20, il, ih, 0x20, pl, ph, 0x4C, 0x07, 0x10,
        0xEA, 0xEA, 0xEA, 0xEA] @ replicate 111 0"
    and v: "int_vecs (nes_memory n') = [0, 0, 0x00, 0x10, 0, 0]"
    using n'(2) b by (simp_all add: keeps_program_def)
  have r1: "fst (read6502 0x1007 ?w) = 0x20" "fst (read6502 0x100B ?w) = 0x07"
    "fst (read6502 0x100C ?w) = 0x10"
    by (simp_all add: read6502_def n'(1) p)
  have r2: "fst (read6502 0xFFFC ?w) = 0x00" "fst (read6502 0xFFFD ?w) = 0x10"
    by (simp_all add: read6502_def n'(1) v)
  show ?thesis
    using n'(1) p v b(2,3) r1 r2 by blast
qed

theorem trampoline_layout_witness:
  "\<exists>nsf'. active_nsf_file (snd (nsf_playback_init [] example_nsf 2 True)) = Some nsf' \<and>
     prg (nes_memory nsf') =
       [0xA9, 2, 0xA2, 0, 0x20, 0x00, 0x80, 0x20, 0x00, 0x80, 0x4C, 0x07, 0x10,
        0xEA, 0xEA, 0xEA, 0xEA] @ replicate 111 0"
proof -
  have h: "unat (init_address (header example_nsf)) = 32768"
    "unat (play_address (header example_nsf)) = 32768"
    by (simp_all add: example_nsf_def example_header_def)
  obtain n' il ih pl ph where
    a: "active_nsf_file (snd (nsf_playback_init [] example_nsf 2 True)) = Some n'"
    and p: "prg (nes_memory n') =
       [0xA9, 2, 0xA2, 0, 0x20, il, ih, 0x20, pl, ph, 0x4C, 0x07, 0x10,
        0xEA, 0xEA, 0xEA, 0xEA] @ replicate 111 0"
    and i: "unat il + 256 * unat ih = 32768" and q: "unat pl + 256 * unat ph = 32768"
    using trampoline_layout [of "[]" example_nsf 2 True] unfolding h by blast
  show ?thesis
    using a p le_bytes_8000 [OF i] le_bytes_8000 [OF q] by simp
qed


subsection \<open>The contiguous ROM load\<close>

lemma rom_address_decode:
  fixes a :: u16
  assumes a: "0x8000 \<le> a"
  shows "unat (ucast (drop_bit 12 (a AND 0x7000)) :: u8) * 4096 + unat (a AND 0x0FFF)
           = unat a - 0x8000"
    and "unat (ucast (drop_bit 12 (a AND 0x7000)) :: u8) = unat a div 4096 - 8"
    and "unat (a AND 0x0FFF) = unat a mod 4096"
proof -
  have m1: "(0x0FFF::u16) = mask 12" by (simp add: mask_eq_exp_minus_1)
  have m2: "(0x7000::u16) = push_bit 12 (mask 3)"
    by (simp add: mask_eq_exp_minus_1 push_bit_eq_mult)
  have lo: "a AND 0x0FFF = take_bit 12 a"
    unfolding m1 by (simp add: take_bit_eq_mask)
  have hi: "drop_bit 12 (a AND 0x7000) = take_bit 3 (drop_bit 12 a)"
    unfolding m2 by (rule bit_word_eqI) (auto simp: bit_simps)
  have b: "unat a < 65536" "32768 \<le> unat a"
    using unsigned_less [of a, where 'a=nat] a by (simp_all add: word_le_nat_alt)
  have ul: "unat (a AND 0x0FFF) = unat a mod 4096"
    unfolding lo by (simp only: unsigned_take_bit_eq) (simp add: take_bit_eq_mod)
  have d: "unat (drop_bit 12 a) = unat a div 4096"
    by (simp only: unat_drop_bit_eq) (simp add: drop_bit_eq_div)
  have "unat (take_bit 3 (drop_bit 12 a)) = take_bit 3 (unat (drop_bit 12 a))"
    by (rule unsigned_take_bit_eq)
  also have "\<dots> = take_bit 3 (unat a div 4096)"
    by (simp only: d)
  also have "\<dots> = (unat a div 4096) mod 8"
    by (simp add: take_bit_eq_mod)
  finally have t: "unat (take_bit 3 (drop_bit 12 a)) = (unat a div 4096) mod 8" .
  define q where "q = unat a div 4096"
  define r where "r = unat a mod 4096"
  have x: "unat a = q * 4096 + r"
    by (simp add: q_def r_def)
  have q8: "8 \<le> q"
    using div_le_mono [OF b(2), of 4096] by (simp add: q_def)
  have q16: "q < 16"
    using b(1) by (simp add: q_def less_mult_imp_div_less)
  have qm: "q mod 8 = q - 8"
    using q8 q16 by presburger
  have "unat (ucast (take_bit 3 (drop_bit 12 a)) :: u8) = unat (take_bit 3 (drop_bit 12 a)) mod 256"
    by (simp only: unsigned_ucast_eq take_bit_eq_mod) simp
  also have "\<dots> = (q mod 8) mod 256"
    by (simp only: t q_def)
  also have "\<dots> = q - 8"
    using q16 by (simp add: qm)
  finally have uh: "unat (ucast (drop_bit 12 (a AND 0x7000)) :: u8) = q - 8"
    by (simp only: hi)
  show 2: "unat (ucast (drop_bit 12 (a AND 0x7000)) :: u8) = unat a div 4096 - 8"
    by (simp only: uh q_def)
  show "unat (a AND 0x0FFF) = unat a mod 4096" by (rule ul)
  have "(q - 8) * 4096 + r = unat a - 0x8000"
    using q8 x by simp
  then show "unat (ucast (drop_bit 12 (a AND 0x7000)) :: u8) * 4096 + unat (a AND 0x0FFF)
           = unat a - 0x8000"
    by (simp only: uh ul r_def)
qed


lemma mem_write_replicate:
  "off + length d \<le> n \<Longrightarrow>
   mem_write (replicate n 0) off d = replicate off 0 @ d @ replicate (n - off - length d) 0"
  by (simp add: mem_write_def min_def)

lemma zero_data_zero:
  "k < length (replicate off (0::u8) @ d @ replicate t 0) \<Longrightarrow>
   (replicate off (0::u8) @ d @ replicate t 0) ! k =
     (if off \<le> k \<and> k - off < length d then d ! (k - off) else 0)"
  by (auto simp: nth_append)

lemma init_load_nes_rom_result:
  assumes la: "0x8000 \<le> load_address (header nsf)" and ok: "io_ok (fp nsf)"
  shows "take (0xFFFF - unat (load_address (header nsf))) (drop 0x80 (contents (fp nsf))) = [] \<Longrightarrow>
           fst (nsf_init_load_nes_rom nsf) = ESP_FAIL \<and>
           rom_block (nes_memory (snd (nsf_init_load_nes_rom nsf))) = replicate 8 None"
    and "take (0xFFFF - unat (load_address (header nsf))) (drop 0x80 (contents (fp nsf))) \<noteq> [] \<Longrightarrow>
           fst (nsf_init_load_nes_rom nsf) = ESP_OK \<and>
           rom (nes_memory (snd (nsf_init_load_nes_rom nsf))) =
             replicate (unat (load_address (header nsf)) - 0x8000) 0
             @ take (0xFFFF - unat (load_address (header nsf))) (drop 0x80 (contents (fp nsf)))
             @ replicate (32768 - (unat (load_address (header nsf)) - 0x8000)
                 - length (take (0xFFFF - unat (load_address (header nsf)))
                     (drop 0x80 (contents (fp nsf))))) 0 \<and>
           rom_block (nes_memory (snd (nsf_init_load_nes_rom nsf))) =
             map (\<lambda>i. Some (i * 4096)) [0..<8]"
proof -
  let ?la = "unat (load_address (header nsf))"
  let ?data = "take (0xFFFF - ?la) (drop 0x80 (contents (fp nsf)))"
  have b: "32768 \<le> ?la" "?la < 65536"
    using la unsigned_less [of "load_address (header nsf)", where 'a=nat]
    by (simp_all add: word_le_nat_alt)
  have nl: "\<not> load_address (header nsf) < 0x8000"
    using la by simp
  have sk: "fseek (fp nsf) 0x080 = Some ((fp nsf)\<lparr>fpos := 0x080, at_eof := False\<rparr>)"
    using ok by (simp add: fseek_def)
  have rd: "fst (fread (0xFFFF - ?la) ((fp nsf)\<lparr>fpos := 0x080, at_eof := False\<rparr>)) = ?data"
    using ok by (simp add: fread_def Let_def)
  have len: "(?la - 0x8000) + length ?data \<le> 32768"
    using b by simp
  show "?data = [] \<Longrightarrow>
           fst (nsf_init_load_nes_rom nsf) = ESP_FAIL \<and>
           rom_block (nes_memory (snd (nsf_init_load_nes_rom nsf))) = replicate 8 None"
    using nl sk rd by (simp add: nsf_init_load_nes_rom_def Let_def split_beta)
  show "?data \<noteq> [] \<Longrightarrow>
           fst (nsf_init_load_nes_rom nsf) = ESP_OK \<and>
           rom (nes_memory (snd (nsf_init_load_nes_rom nsf))) =
             replicate (?la - 0x8000) 0 @ ?data
             @ replicate (32768 - (?la - 0x8000) - length ?data) 0 \<and>
           rom_block (nes_memory (snd (nsf_init_load_nes_rom nsf))) =
             map (\<lambda>i. Some (i * 4096)) [0..<8]"
    using nl sk rd mem_write_replicate [OF len]
    by (simp add: nsf_init_load_nes_rom_def Let_def split_beta)
qed


lemma read_rom_window:
  assumes act: "active_nsf_file w = Some n" and lo: "0x8000 \<le> a" and hi: "a < 0xFFFA"
  shows "rom_block (nes_memory n) = map (\<lambda>i. Some (i * 4096)) [0..<8] \<Longrightarrow>
           fst (read6502 a w) = rom (nes_memory n) ! (unat a - 0x8000)"
    and "rom_block (nes_memory n) = replicate 8 None \<Longrightarrow> fst (read6502 a w) = 0"
proof -
  let ?bi = "unat (ucast (drop_bit 12 (a AND 0x7000)) :: u8)"
  note d = rom_address_decode [OF lo]
  have r: "\<not> a \<le> 0x07FF" "\<not> a \<le> 0x107F" "\<not> a \<le> 0x4017" "\<not> a \<le> 0x5FFF"
    using lo by (simp_all add: word_le_nat_alt)
  have "unat a < 65536"
    using unsigned_less [of a, where 'a=nat] by simp
  then have "unat a div 4096 < 16"
    by (simp add: less_mult_imp_div_less)
  then have bi: "?bi < 8"
    unfolding d(2) by simp
  have e: "read6502 a w =
     (case rom_block (nes_memory n) ! ?bi of
        None \<Rightarrow> (0, w)
      | Some p \<Rightarrow> (rom (nes_memory n) ! (p + unat (a AND 0x0FFF)),
           w\<lparr>active_nsf_file := Some (n\<lparr>nes_memory :=
              mark_rom_bank_used (nes_memory n) (rom_block_bank_id (nes_memory n) ! ?bi)\<rparr>)\<rparr>))"
    using act lo hi r by (simp add: read6502_def Let_def del: drop_bit_and)
  show "rom_block (nes_memory n) = map (\<lambda>i. Some (i * 4096)) [0..<8] \<Longrightarrow>
           fst (read6502 a w) = rom (nes_memory n) ! (unat a - 0x8000)"
    using bi d(1) by (simp add: e del: upt_Suc drop_bit_and)
  show "rom_block (nes_memory n) = replicate 8 None \<Longrightarrow> fst (read6502 a w) = 0"
    using bi by (simp add: e del: drop_bit_and)
qed

lemma same_rom_refl: "same_rom n n"
  by (simp add: same_rom_def)

lemma same_rom_trans: "same_rom a b \<Longrightarrow> same_rom b c \<Longrightarrow> same_rom a c"
  by (simp add: same_rom_def)

lemma bus_step_same_rom:
  assumes act: "active_nsf_file w = Some n" and nb: "no_bank_write op"
  shows "\<exists>n'. active_nsf_file (bus_step w op) = Some n' \<and> same_rom n n'"
proof (cases op)
  case (Bus_read a)
  then show ?thesis
    using act by (auto simp: read6502_def Let_def same_rom_def mark_rom_bank_used_def
        split: option.splits)
next
  case (Bus_write a v)
  then have "\<not> (0x5FF8 \<le> a \<and> a \<le> 0x5FFF)"
    using nb by auto
  then show ?thesis
    using act Bus_write by (auto simp: write6502_def Let_def same_rom_def)
qed

lemma cpu_run_same_rom:
  "active_nsf_file w = Some n \<Longrightarrow> list_all no_bank_write ops \<Longrightarrow>
   \<exists>n'. active_nsf_file (cpu_run ops w) = Some n' \<and> same_rom n n'"
proof (induction ops arbitrary: w n)
  case Nil
  then show ?case by (simp add: cpu_run_def same_rom_refl)
next
  case (Cons op ops)
  from Cons.prems(2) have nb: "no_bank_write op" and rest: "list_all no_bank_write ops"
    by simp_all
  obtain n1 where n1: "active_nsf_file (bus_step w op) = Some n1" "same_rom n n1"
    using bus_step_same_rom [OF Cons.prems(1) nb] by blast
  obtain n2 where n2: "active_nsf_file (cpu_run ops (bus_step w op)) = Some n2" "same_rom n1 n2"
    using Cons.IH [OF n1(1) rest] by blast
  have "same_rom n n2" using n1(2) n2(2) by (rule same_rom_trans)
  then show ?case
    using n2(1) by (simp add: cpu_run_def)
qed


lemma playback_init_contiguous:
  assumes bs: "bankswitch_init (header nsf) = replicate 8 0"
  shows "nsf_playback_init cpu_ops nsf song cb =
     (let n1 = nsf_init_nes_prg (nsf_init_nes_memory (nsf\<lparr>apu_write_cb := cb\<rparr>)) song 0;
          r = nsf_init_load_nes_rom n1;
          w = \<lparr>active_nsf_file = Some (snd r), events = []\<rparr>
      in if fst r \<noteq> ESP_OK then (fst r, w) else (ESP_OK, cpu_run cpu_ops w))"
    and "header (nsf_init_nes_prg (nsf_init_nes_memory (nsf\<lparr>apu_write_cb := cb\<rparr>)) song 0)
           = header nsf"
    and "fp (nsf_init_nes_prg (nsf_init_nes_memory (nsf\<lparr>apu_write_cb := cb\<rparr>)) song 0) = fp nsf"
proof -
  let ?n1 = "nsf_init_nes_prg (nsf_init_nes_memory (nsf\<lparr>apu_write_cb := cb\<rparr>)) song 0"
  show h: "header ?n1 = header nsf"
    by (simp add: nsf_init_nes_prg_def nsf_init_nes_memory_def Let_def)
  show "fp ?n1 = fp nsf"
    by (simp add: nsf_init_nes_prg_def nsf_init_nes_memory_def Let_def)
  have "\<not> nsf_has_bank_switching ?n1"
    unfolding nsf_has_bank_switching_def h bs by (simp add: find_None_iff)
  then show "nsf_playback_init cpu_ops nsf song cb =
     (let n1 = ?n1; r = nsf_init_load_nes_rom n1;
          w = \<lparr>active_nsf_file = Some (snd r), events = []\<rparr>
      in if fst r \<noteq> ESP_OK then (fst r, w) else (ESP_OK, cpu_run cpu_ops w))"
    by (simp add: nsf_playback_init_def Let_def split_beta)
qed

lemma contiguous_general:
  assumes bs: "bankswitch_init (header nsf) = replicate 8 0"
    and la: "0x8000 \<le> load_address (header nsf)"
    and ok: "io_ok (fp nsf)"
    and ops: "list_all no_bank_write cpu_ops"
  shows "rom_payload nsf = [] \<Longrightarrow>
           fst (nsf_playback_init cpu_ops nsf song cb) = ESP_FAIL \<and>
           (\<forall>a. 0x8000 \<le> a \<and> a < 0xFFFA \<longrightarrow>
                fst (read6502 a (snd (nsf_playback_init cpu_ops nsf song cb))) = 0)"
    and "rom_payload nsf \<noteq> [] \<Longrightarrow>
           fst (nsf_playback_init cpu_ops nsf song cb) = ESP_OK \<and>
           (\<exists>n'. active_nsf_file (snd (nsf_playback_init cpu_ops nsf song cb)) = Some n' \<and>
                 rom (nes_memory n') =
                   replicate (unat (load_address (header nsf)) - 0x8000) 0 @ rom_payload nsf
                   @ replicate (32768 - (unat (load_address (header nsf)) - 0x8000)
                       - length (rom_payload nsf)) 0 \<and>
                 rom_block (nes_memory n') = map (\<lambda>i. Some (i * 4096)) [0..<8]) \<and>
           (\<forall>a. 0x8000 \<le> a \<and> a < 0xFFFA \<longrightarrow>
                fst (read6502 a (snd (nsf_playback_init cpu_ops nsf song cb))) =
                  (if unat (load_address (header nsf)) \<le> unat a \<and>
                      unat a - unat (load_address (header nsf)) < length (rom_payload nsf)
                   then rom_payload nsf ! (unat a - unat (load_address (header nsf)))
                   else 0))"
proof -
  let ?n1 = "nsf_init_nes_prg (nsf_init_nes_memory (nsf\<lparr>apu_write_cb := cb\<rparr>)) song 0"
  let ?r = "nsf_init_load_nes_rom ?n1"
  let ?w = "\<lparr>active_nsf_file = Some (snd ?r), events = []\<rparr>"
  let ?R = "nsf_playback_init cpu_ops nsf song cb"
  let ?la = "unat (load_address (header nsf))"
  note p = playback_init_contiguous(1) [OF bs, where song=song and cb=cb and cpu_ops=cpu_ops]
    playback_init_contiguous(2,3) [OF bs, where song=song and cb=cb]
  have la1: "0x8000 \<le> load_address (header ?n1)" and ok1: "io_ok (fp ?n1)"
    using la ok by (simp_all only: p(2) p(3))
  have pay: "take (0xFFFF - unat (load_address (header ?n1))) (drop 0x80 (contents (fp ?n1)))
      = rom_payload nsf"
    by (simp only: p(2) p(3) rom_payload_def)
  note res = init_load_nes_rom_result [OF la1 ok1, unfolded pay]
  have b: "32768 \<le> ?la" "?la < 65536"
    using la unsigned_less [of "load_address (header nsf)", where 'a=nat]
    by (simp_all add: word_le_nat_alt)
  show "rom_payload nsf = [] \<Longrightarrow>
           fst ?R = ESP_FAIL \<and>
           (\<forall>a. 0x8000 \<le> a \<and> a < 0xFFFA \<longrightarrow> fst (read6502 a (snd ?R)) = 0)"
  proof -
    assume e: "rom_payload nsf = []"
    have f: "fst ?r = ESP_FAIL" and blk: "rom_block (nes_memory (snd ?r)) = replicate 8 None"
      using res(1) [OF e] by simp_all
    have R: "?R = (ESP_FAIL, ?w)"
      unfolding p(1) using f by (simp add: Let_def)
    have "\<And>a. 0x8000 \<le> a \<Longrightarrow> a < 0xFFFA \<Longrightarrow> fst (read6502 a ?w) = 0"
      using read_rom_window(2) [of ?w "snd ?r"] blk by simp
    then show ?thesis
      unfolding R by simp
  qed
  show "rom_payload nsf \<noteq> [] \<Longrightarrow>
           fst ?R = ESP_OK \<and>
           (\<exists>n'. active_nsf_file (snd ?R) = Some n' \<and>
                 rom (nes_memory n') =
                   replicate (?la - 0x8000) 0 @ rom_payload nsf
                   @ replicate (32768 - (?la - 0x8000) - length (rom_payload nsf)) 0 \<and>
                 rom_block (nes_memory n') = map (\<lambda>i. Some (i * 4096)) [0..<8]) \<and>
           (\<forall>a. 0x8000 \<le> a \<and> a < 0xFFFA \<longrightarrow>
                fst (read6502 a (snd ?R)) =
                  (if ?la \<le> unat a \<and> unat a - ?la < length (rom_payload nsf)
                   then rom_payload nsf ! (unat a - ?la) else 0))"
  proof -
    assume ne: "rom_payload nsf \<noteq> []"
    let ?rom = "replicate (?la - 0x8000) 0 @ rom_payload nsf
                   @ replicate (32768 - (?la - 0x8000) - length (rom_payload nsf)) 0"
    have f: "fst ?r = ESP_OK" and rm: "rom (nes_memory (snd ?r)) = ?rom"
      and blk: "rom_block (nes_memory (snd ?r)) = map (\<lambda>i. Some (i * 4096)) [0..<8]"
      using res(2) [OF ne] unfolding p(2) by simp_all
    have R: "?R = (ESP_OK, cpu_run cpu_ops ?w)"
      unfolding p(1) using f by (simp add: Let_def)
    obtain n' where n': "active_nsf_file (cpu_run cpu_ops ?w) = Some n'" "same_rom (snd ?r) n'"
      using cpu_run_same_rom [of ?w "snd ?r" cpu_ops] ops by auto
    have rm': "rom (nes_memory n') = ?rom"
      and blk': "rom_block (nes_memory n') = map (\<lambda>i. Some (i * 4096)) [0..<8]"
      using n'(2) rm blk by (simp_all add: same_rom_def)
    have pl: "length (rom_payload nsf) \<le> 0xFFFF - ?la"
      by (simp add: rom_payload_def)
    have len: "length ?rom = 32768"
      using b pl by simp
    have rd: "\<And>a. 0x8000 \<le> a \<Longrightarrow> a < 0xFFFA \<Longrightarrow>
        fst (read6502 a (cpu_run cpu_ops ?w)) =
          (if ?la \<le> unat a \<and> unat a - ?la < length (rom_payload nsf)
           then rom_payload nsf ! (unat a - ?la) else 0)"
    proof -
      fix a :: u16
      assume lo: "0x8000 \<le> a" and hi: "a < 0xFFFA"
      have ab: "32768 \<le> unat a" "unat a < 65536"
        using lo unsigned_less [of a, where 'a=nat] by (simp_all add: word_le_nat_alt)
      have k: "unat a - 0x8000 < length ?rom"
        unfolding len using ab by simp
      have "fst (read6502 a (cpu_run cpu_ops ?w)) = ?rom ! (unat a - 0x8000)"
        using read_rom_window(1) [OF n'(1) lo hi blk'] rm' by simp
      also have "\<dots> = (if ?la - 0x8000 \<le> unat a - 0x8000 \<and>
            unat a - 0x8000 - (?la - 0x8000) < length (rom_payload nsf)
          then rom_payload nsf ! (unat a - 0x8000 - (?la - 0x8000)) else 0)"
        using zero_data_zero [OF k] by simp
      also have "\<dots> = (if ?la \<le> unat a \<and> unat a - ?la < length (rom_payload nsf)
           then rom_payload nsf ! (unat a - ?la) else 0)"
        using ab b by (auto simp: diff_diff_eq)
      finally show "fst (read6502 a (cpu_run cpu_ops ?w)) =
          (if ?la \<le> unat a \<and> unat a - ?la < length (rom_payload nsf)
           then rom_payload nsf ! (unat a - ?la) else 0)" .
    qed
    show ?thesis
      unfolding R using n'(1) rm' blk' rd by simp
  qed
qed


lemma example_nsf_facts:
  "bankswitch_init (header example_nsf) = replicate 8 0"
  "0x8000 \<le> load_address (header example_nsf)"
  "unat (load_address (header example_nsf)) = 32768"
  "io_ok (fp example_nsf)"
  "rom_payload example_nsf = replicate 8192 0xAB"
  by (simp_all add: example_nsf_def example_header_def example_file_def rom_payload_def
      example_header_bytes_def)

lemma empty_body_nsf_facts:
  "bankswitch_init (header empty_body_nsf) = replicate 8 0"
  "0x8000 \<le> load_address (header empty_body_nsf)"
  "io_ok (fp empty_body_nsf)"
  "rom_payload empty_body_nsf = []"
  by (simp_all add: empty_body_nsf_def example_nsf_def example_header_def example_file_def
      rom_payload_def example_header_bytes_def)

text \<open>
  Claim C7, as the code has it. Take a file whose \<open>bankswitch_init\<close> is all zero and
  whose load address is at least \<^verbatim>\<open>$8000\<close>, on a working medium, and a processor that
  does not write to the bank registers. \<^verbatim>\<open>nsf_playback_init\<close> zeroes a buffer of 32 KiB,
  seeks to \<^verbatim>\<open>0x080\<close> and reads at most \<^verbatim>\<open>0xFFFF - load_address\<close> bytes to offset
  \<^verbatim>\<open>load_address - 0x8000\<close>. When at least one byte arrives, however few, it returns
  \<^verbatim>\<open>ESP_OK\<close>, the eight ROM blocks are the consecutive slices of 4 KiB of the buffer, and
  a read from \<^verbatim>\<open>$8000\<close> to \<^verbatim>\<open>$FFF9\<close> returns the file byte loaded at that address, or
  0 where none was loaded. When no byte arrives it returns \<^verbatim>\<open>ESP_FAIL\<close> and every such
  read returns 0. With load address \<^verbatim>\<open>$8000\<close> and a body of 8192 bytes \<^verbatim>\<open>0xAB\<close> the
  reads at \<^verbatim>\<open>$8000\<close> and \<^verbatim>\<open>$9FFF\<close> return \<^verbatim>\<open>0xAB\<close> and the read at \<^verbatim>\<open>$A000\<close> returns 0.
\<close>

theorem contiguous_load:
  assumes bs: "bankswitch_init (header nsf) = replicate 8 0"
    and la: "0x8000 \<le> load_address (header nsf)"
    and ok: "io_ok (fp nsf)"
    and ops: "list_all no_bank_write cpu_ops"
  shows "(rom_payload nsf = [] \<longrightarrow>
           fst (nsf_playback_init cpu_ops nsf song cb) = ESP_FAIL \<and>
           (\<forall>a. 0x8000 \<le> a \<and> a < 0xFFFA \<longrightarrow>
                fst (read6502 a (snd (nsf_playback_init cpu_ops nsf song cb))) = 0)) \<and>
         (rom_payload nsf \<noteq> [] \<longrightarrow>
           fst (nsf_playback_init cpu_ops nsf song cb) = ESP_OK \<and>
           (\<exists>n'. active_nsf_file (snd (nsf_playback_init cpu_ops nsf song cb)) = Some n' \<and>
                 rom (nes_memory n') =
                   replicate (unat (load_address (header nsf)) - 0x8000) 0 @ rom_payload nsf
                   @ replicate (32768 - (unat (load_address (header nsf)) - 0x8000)
                       - length (rom_payload nsf)) 0 \<and>
                 rom_block (nes_memory n') = map (\<lambda>i. Some (i * 4096)) [0..<8]) \<and>
           (\<forall>a. 0x8000 \<le> a \<and> a < 0xFFFA \<longrightarrow>
                fst (read6502 a (snd (nsf_playback_init cpu_ops nsf song cb))) =
                  (if unat (load_address (header nsf)) \<le> unat a \<and>
                      unat a - unat (load_address (header nsf)) < length (rom_payload nsf)
                   then rom_payload nsf ! (unat a - unat (load_address (header nsf)))
                   else 0))) \<and>
         fst (read6502 0x8000 (snd (nsf_playback_init cpu_ops example_nsf 0 cb))) = 0xAB \<and>
         fst (read6502 0x9FFF (snd (nsf_playback_init cpu_ops example_nsf 0 cb))) = 0xAB \<and>
         fst (read6502 0xA000 (snd (nsf_playback_init cpu_ops example_nsf 0 cb))) = 0x00"
proof -
  note g = contiguous_general [OF bs la ok ops, of song cb]
  have ne: "rom_payload example_nsf \<noteq> []"
    by (simp add: example_nsf_facts(5))
  note x = contiguous_general(2) [OF example_nsf_facts(1,2,4) ops ne, of 0 cb]
  have rd: "\<And>a. 0x8000 \<le> a \<Longrightarrow> a < 0xFFFA \<Longrightarrow>
      fst (read6502 a (snd (nsf_playback_init cpu_ops example_nsf 0 cb))) =
        (if 32768 \<le> unat a \<and> unat a - 32768 < 8192
         then replicate 8192 (0xAB::u8) ! (unat a - 32768) else 0)"
    using x unfolding example_nsf_facts(3,5) by simp
  have e: "fst (read6502 0x8000 (snd (nsf_playback_init cpu_ops example_nsf 0 cb))) = 0xAB"
    "fst (read6502 0x9FFF (snd (nsf_playback_init cpu_ops example_nsf 0 cb))) = 0xAB"
    "fst (read6502 0xA000 (snd (nsf_playback_init cpu_ops example_nsf 0 cb))) = 0x00"
    by (simp_all add: rd)
  show ?thesis
    using g e by blast
qed

theorem contiguous_load_witness:
  "bankswitch_init (header example_nsf) = replicate 8 0 \<and>
   0x8000 \<le> load_address (header example_nsf) \<and> io_ok (fp example_nsf) \<and>
   list_all no_bank_write [Bus_read 0x8000, Bus_write 0x0000 1] \<and>
   rom_payload example_nsf \<noteq> [] \<and>
   fst (nsf_playback_init [Bus_read 0x8000, Bus_write 0x0000 1] example_nsf 0 True) = ESP_OK \<and>
   fst (read6502 0x8010
     (snd (nsf_playback_init [Bus_read 0x8000, Bus_write 0x0000 1] example_nsf 0 True))) = 0xAB \<and>
   bankswitch_init (header empty_body_nsf) = replicate 8 0 \<and>
   0x8000 \<le> load_address (header empty_body_nsf) \<and> io_ok (fp empty_body_nsf) \<and>
   rom_payload empty_body_nsf = [] \<and>
   fst (nsf_playback_init [Bus_read 0x8000, Bus_write 0x0000 1] empty_body_nsf 0 True) = ESP_FAIL"
proof -
  have o: "list_all no_bank_write [Bus_read 0x8000, Bus_write 0x0000 1]"
    by simp
  have ne: "rom_payload example_nsf \<noteq> []"
    by (simp add: example_nsf_facts(5))
  have r: "(0x8000::u16) \<le> 0x8010 \<and> (0x8010::u16) < 0xFFFA"
    by simp
  have "fst (nsf_playback_init [Bus_read 0x8000, Bus_write 0x0000 1] example_nsf 0 True) = ESP_OK \<and>
   fst (read6502 0x8010
     (snd (nsf_playback_init [Bus_read 0x8000, Bus_write 0x0000 1] example_nsf 0 True))) =
     (if unat (load_address (header example_nsf)) \<le> unat (0x8010::u16) \<and>
                      unat (0x8010::u16) - unat (load_address (header example_nsf))
                        < length (rom_payload example_nsf)
                   then rom_payload example_nsf ! (unat (0x8010::u16) - unat (load_address (header example_nsf)))
                   else 0)"
    using contiguous_load [OF example_nsf_facts(1,2,4) o, of 0 True] ne r by blast
  then have 1: "fst (nsf_playback_init [Bus_read 0x8000, Bus_write 0x0000 1] example_nsf 0 True) = ESP_OK \<and>
   fst (read6502 0x8010
     (snd (nsf_playback_init [Bus_read 0x8000, Bus_write 0x0000 1] example_nsf 0 True))) = 0xAB"
    unfolding example_nsf_facts(3,5) by simp
  have 2: "fst (nsf_playback_init [Bus_read 0x8000, Bus_write 0x0000 1] empty_body_nsf 0 True) = ESP_FAIL"
    using contiguous_load [OF empty_body_nsf_facts(1,2,3) o, of 0 True] empty_body_nsf_facts(4)
    by blast
  show ?thesis
    using example_nsf_facts(1,2,4) empty_body_nsf_facts o ne 1 2 by blast
qed

text \<open>
  A file that ends with its header loads no byte, and \<^verbatim>\<open>nsf_playback_init\<close> fails on it.
\<close>

theorem contiguous_load_empty_body_fails:
  "bankswitch_init (header empty_body_nsf) = replicate 8 0 \<and>
   0x8000 \<le> load_address (header empty_body_nsf) \<and>
   fst (nsf_playback_init [] empty_body_nsf 0 True) = ESP_FAIL \<and>
   fst (nsf_playback_init [] empty_body_nsf 0 True) \<noteq> ESP_OK"
proof -
  have "fst (nsf_playback_init [] empty_body_nsf 0 True) = ESP_FAIL"
    using contiguous_general(1) [OF empty_body_nsf_facts(1,2,3) _ empty_body_nsf_facts(4), of "[]" 0 True]
    by simp
  then show ?thesis
    using empty_body_nsf_facts(1,2) by simp
qed


subsection \<open>Loading a bank into a slot\<close>

lemma mem_write_length:
  "off + length d \<le> length buf \<Longrightarrow> length (mem_write buf off d) = length buf"
  by (simp add: mem_write_def)

lemma mem_write_nth:
  "off + length d \<le> length buf \<Longrightarrow> i < length buf \<Longrightarrow>
   mem_write buf off d ! i = (if off \<le> i \<and> i < off + length d then d ! (i - off) else buf ! i)"
  by (auto simp: mem_write_def nth_append min_def)

lemma padding_bound: "unat ((a::u16) AND 0x0FFF) < 4096"
proof -
  have "(0x0FFF::u16) = mask 12" by (simp add: mask_eq_exp_minus_1)
  then have "a AND 0x0FFF = take_bit 12 a" by (simp add: take_bit_eq_mask)
  then have "unat (a AND 0x0FFF) = take_bit 12 (unat a)"
    by (simp only: unsigned_take_bit_eq)
  then show ?thesis by (simp add: take_bit_eq_mod)
qed

lemma fread_facts:
  assumes "io_ok f"
  shows "fst (fread count f) = take count (drop (fpos f) (contents f))"
    and "io_ok (snd (fread count f))"
    and "contents (snd (fread count f)) = contents f"
    and "0 < count \<Longrightarrow> \<not> (length (fst (fread count f)) = 0 \<and> \<not> feof (snd (fread count f)))"
  using assms by (auto simp: fread_def feof_def Let_def)

text \<open>What the data lines of a bank load do on a working medium.\<close>

lemma load_bank_data_result:
  assumes ok: "io_ok (fp nsf)"
  shows "fst (load_bank_data nsf bank_index bank)"
    and "nes_memory (snd (load_bank_data nsf bank_index bank)) =
       (nes_memory nsf)
          \<lparr>rom := mem_write (mem_write (rom (nes_memory nsf)) (bank_index * 4096) (replicate 4096 0))
                   (bank_index * 4096 + (if bank = 0 then unat (load_address (header nsf) AND 0x0FFF) else 0))
                   (if bank = 0
                    then take (4096 - unat (load_address (header nsf) AND 0x0FFF))
                           (drop 0x080 (contents (fp nsf)))
                    else take 4096 (drop (0x080 + (4096 - unat (load_address (header nsf) AND 0x0FFF))
                           + 4096 * (unat bank - 1)) (contents (fp nsf)))),
           rom_bank_loaded := (rom_bank_loaded (nes_memory nsf))[bank_index := 0]\<rparr>"
    and "header (snd (load_bank_data nsf bank_index bank)) = header nsf"
    and "io_ok (fp (snd (load_bank_data nsf bank_index bank)))"
    and "contents (fp (snd (load_bank_data nsf bank_index bank))) = contents (fp nsf)"
proof -
  let ?pad = "unat (load_address (header nsf) AND 0x0FFF)"
  let ?m1 = "(nes_memory nsf)\<lparr>rom := mem_write (rom (nes_memory nsf)) (bank_index * 4096) (replicate 4096 0),
                 rom_bank_loaded := (rom_bank_loaded (nes_memory nsf))[bank_index := 0]\<rparr>"
  have pad: "0 < 4096 - ?pad"
    using padding_bound [of "load_address (header nsf)"] by simp
  have sk: "\<And>off. fseek (fp nsf) off = Some ((fp nsf)\<lparr>fpos := off, at_eof := False\<rparr>)"
    using ok by (simp add: fseek_def)
  have okf: "\<And>off. io_ok ((fp nsf)\<lparr>fpos := off, at_eof := False\<rparr>)"
    using ok by simp
  define off cnt where "off = (if bank = 0 then 0x080 else 0x080 + (4096 - ?pad) + 4096 * (unat bank - 1))"
    and "cnt = (if bank = 0 then 4096 - ?pad else 4096)"
  define rd where "rd = fread cnt ((fp nsf)\<lparr>fpos := off, at_eof := False\<rparr>)"
  have cnt: "0 < cnt" using pad by (simp add: cnt_def)
  note fr = fread_facts [OF okf [of off], of cnt, folded rd_def]
  have e: "load_bank_data nsf bank_index bank =
     (if length (fst rd) = 0 \<and> \<not> feof (snd rd)
      then (False, nsf\<lparr>fp := snd rd, nes_memory := ?m1\<rparr>)
      else (True, nsf\<lparr>fp := snd rd, nes_memory := ?m1\<lparr>rom := mem_write (rom ?m1)
               (bank_index * 4096 + (if bank = 0 then ?pad else 0)) (fst rd)\<rparr>\<rparr>))"
    by (simp add: load_bank_data_def Let_def sk split_beta rd_def off_def cnt_def)
  have g: "\<not> (length (fst rd) = 0 \<and> \<not> feof (snd rd))"
    using fr(4) [OF cnt] .
  have e': "load_bank_data nsf bank_index bank =
      (True, nsf\<lparr>fp := snd rd, nes_memory := ?m1\<lparr>rom := mem_write (rom ?m1)
               (bank_index * 4096 + (if bank = 0 then ?pad else 0)) (fst rd)\<rparr>\<rparr>)"
    unfolding e using g by (simp only: if_False)
  have d: "fst rd = (if bank = 0
                    then take (4096 - ?pad) (drop 0x080 (contents (fp nsf)))
                    else take 4096 (drop (0x080 + (4096 - ?pad) + 4096 * (unat bank - 1))
                           (contents (fp nsf))))"
    unfolding fr(1) by (simp add: off_def cnt_def)
  show "fst (load_bank_data nsf bank_index bank)"
    unfolding e' by simp
  show "nes_memory (snd (load_bank_data nsf bank_index bank)) =
       (nes_memory nsf)
          \<lparr>rom := mem_write (mem_write (rom (nes_memory nsf)) (bank_index * 4096) (replicate 4096 0))
                   (bank_index * 4096 + (if bank = 0 then ?pad else 0))
                   (if bank = 0
                    then take (4096 - ?pad) (drop 0x080 (contents (fp nsf)))
                    else take 4096 (drop (0x080 + (4096 - ?pad) + 4096 * (unat bank - 1))
                           (contents (fp nsf)))),
           rom_bank_loaded := (rom_bank_loaded (nes_memory nsf))[bank_index := 0]\<rparr>"
    unfolding e' d [symmetric] by simp
  show "header (snd (load_bank_data nsf bank_index bank)) = header nsf"
    unfolding e' by simp
  show "io_ok (fp (snd (load_bank_data nsf bank_index bank)))"
    unfolding e' using fr(2) by simp
  show "contents (fp (snd (load_bank_data nsf bank_index bank))) = contents (fp nsf)"
    unfolding e' using fr(3) by simp
qed


lemma slot_fill:
  assumes len: "length buf = ROM_BANK_SIZE * ROM_BANK_COUNT" and s: "s < ROM_BANK_COUNT"
    and fit: "p + length d \<le> 4096"
  shows "k < 4096 \<Longrightarrow>
           mem_write (mem_write buf (s * 4096) (replicate 4096 0)) (s * 4096 + p) d ! (s * 4096 + k)
             = (if p \<le> k \<and> k - p < length d then d ! (k - p) else 0)"
    and "j < ROM_BANK_SIZE * ROM_BANK_COUNT \<Longrightarrow> \<not> (s * 4096 \<le> j \<and> j < s * 4096 + 4096) \<Longrightarrow>
           mem_write (mem_write buf (s * 4096) (replicate 4096 0)) (s * 4096 + p) d ! j = buf ! j"
    and "length (mem_write (mem_write buf (s * 4096) (replicate 4096 0)) (s * 4096 + p) d)
           = ROM_BANK_SIZE * ROM_BANK_COUNT"
proof -
  let ?z = "mem_write buf (s * 4096) (replicate 4096 0)"
  have in1: "s * 4096 + length (replicate 4096 (0::u8)) \<le> length buf"
    using len s by simp
  have lz: "length ?z = length buf"
    by (rule mem_write_length [OF in1])
  have in2: "s * 4096 + p + length d \<le> length ?z"
    unfolding lz using len s fit by simp
  show "length (mem_write ?z (s * 4096 + p) d) = ROM_BANK_SIZE * ROM_BANK_COUNT"
    using mem_write_length [OF in2] lz len by simp
  show "k < 4096 \<Longrightarrow> mem_write ?z (s * 4096 + p) d ! (s * 4096 + k)
             = (if p \<le> k \<and> k - p < length d then d ! (k - p) else 0)"
  proof -
    assume k: "k < 4096"
    have i: "s * 4096 + k < length buf" using len s k by simp
    have i': "s * 4096 + k < length ?z" using i lz by simp
    have z: "?z ! (s * 4096 + k) = 0"
      using mem_write_nth [OF in1 i] k by simp
    show ?thesis
      using mem_write_nth [OF in2 i'] z by (auto simp: nat_add_left_cancel_le)
  qed
  show "j < ROM_BANK_SIZE * ROM_BANK_COUNT \<Longrightarrow> \<not> (s * 4096 \<le> j \<and> j < s * 4096 + 4096) \<Longrightarrow>
           mem_write ?z (s * 4096 + p) d ! j = buf ! j"
  proof -
    assume j: "j < ROM_BANK_SIZE * ROM_BANK_COUNT" and out: "\<not> (s * 4096 \<le> j \<and> j < s * 4096 + 4096)"
    have i: "j < length buf" using len j by simp
    have i': "j < length ?z" using i lz by simp
    have z: "?z ! j = buf ! j"
      using mem_write_nth [OF in1 i] out by auto
    show ?thesis
      using mem_write_nth [OF in2 i'] z out fit by auto
  qed
qed

lemma offset_law_take_drop:
  assumes k: "k < 4096" and pad: "padding < 4096"
  shows "(if (if bank = 0 then padding else 0) \<le> k \<and>
             k - (if bank = 0 then padding else 0) <
               length (if bank = 0 then take (4096 - padding) (drop 0x080 bytes)
                       else take 4096 (drop (0x080 + (4096 - padding) + 4096 * (unat bank - 1)) bytes))
          then (if bank = 0 then take (4096 - padding) (drop 0x080 bytes)
                else take 4096 (drop (0x080 + (4096 - padding) + 4096 * (unat bank - 1)) bytes))
               ! (k - (if bank = 0 then padding else 0))
          else 0) = offset_law_byte bytes padding bank k"
  using k pad by (auto simp: offset_law_byte_def add.commute)


lemma target_block:
  assumes "(0x5FF8::u16) \<le> reg" "reg \<le> 0x5FFF"
  shows "unat (ucast (reg - 0x5FF8) :: u8) = unat (reg - 0x5FF8)" and "unat (reg - 0x5FF8) < 8"
proof -
  show b: "unat (reg - 0x5FF8) < 8"
    using assms by (simp add: word_le_nat_alt unat_sub)
  have "unat (ucast (reg - 0x5FF8) :: u8) = unat (reg - 0x5FF8) mod 256"
    by (simp only: unsigned_ucast_eq take_bit_eq_mod) simp
  then show "unat (ucast (reg - 0x5FF8) :: u8) = unat (reg - 0x5FF8)"
    using b by simp
qed

lemma find_upt_Some: "find P [0..<n] = Some i \<Longrightarrow> i < n \<and> P i \<and> (\<forall>j<i. \<not> P j)"
  by (auto simp: find_Some_iff)

lemma find_upt_None: "find P [0..<n] = None \<Longrightarrow> i < n \<Longrightarrow> \<not> P i"
  by (auto simp: find_None_iff)

lemma clear_reference_keeps:
  "rom (clear_rom_block_reference m k) = rom m"
  "rom_bank_id (clear_rom_block_reference m k) = rom_bank_id m"
  "rom_bank_loaded (clear_rom_block_reference m k) = rom_bank_loaded m"
  "rom_bank_use_order (clear_rom_block_reference m k) = rom_bank_use_order m"
  "length (rom_block (clear_rom_block_reference m k)) = length (rom_block m)"
  "length (rom_block_bank_id (clear_rom_block_reference m k)) = length (rom_block_bank_id m)"
  by (simp_all add: clear_rom_block_reference_def split: option.splits)

lemma evict_result:
  assumes "evict_oldest_bank m = Inr (s, m1)"
  shows "s < ROM_BANK_COUNT"
    and "uint (rom_bank_id m ! s) = rom_bank_use_order m ! 9"
    and "\<forall>j. j < s \<longrightarrow> uint (rom_bank_id m ! j) \<noteq> rom_bank_use_order m ! 9"
    and "rom_bank_use_order m ! 9 \<noteq> - 1"
    and "m1 = clear_rom_block_reference
           (m\<lparr>rom_bank_use_order := (rom_bank_use_order m)[9 := - 1],
              rom_bank_loaded := (rom_bank_loaded m)[s := 0],
              rom_bank_id := (rom_bank_id m)[s := 0]\<rparr>) s"
proof -
  let ?P = "\<lambda>i. uint (rom_bank_id m ! i) = rom_bank_use_order m ! 9"
  have ne: "rom_bank_use_order m ! 9 \<noteq> - 1"
    using assms by (auto simp: evict_oldest_bank_def Let_def split: if_splits)
  have f: "find ?P [0..<ROM_BANK_COUNT] = Some s"
    and c: "m1 = clear_rom_block_reference
           (m\<lparr>rom_bank_use_order := (rom_bank_use_order m)[9 := - 1],
              rom_bank_loaded := (rom_bank_loaded m)[s := 0],
              rom_bank_id := (rom_bank_id m)[s := 0]\<rparr>) s"
    using assms ne
    by (cases "find ?P [0..<ROM_BANK_COUNT]"; simp add: evict_oldest_bank_def Let_def)+
  note fs = find_upt_Some [OF f]
  show "s < ROM_BANK_COUNT" using fs by simp
  show "uint (rom_bank_id m ! s) = rom_bank_use_order m ! 9" using fs by simp
  show "\<forall>j. j < s \<longrightarrow> uint (rom_bank_id m ! j) \<noteq> rom_bank_use_order m ! 9" using fs by simp
  show "rom_bank_use_order m ! 9 \<noteq> - 1" by (rule ne)
  show "m1 = clear_rom_block_reference
           (m\<lparr>rom_bank_use_order := (rom_bank_use_order m)[9 := - 1],
              rom_bank_loaded := (rom_bank_loaded m)[s := 0],
              rom_bank_id := (rom_bank_id m)[s := 0]\<rparr>) s"
    by (rule c)
qed

lemma mark_used_only_order:
  "mark_rom_bank_used m b = m\<lparr>rom_bank_use_order := rom_bank_use_order (mark_rom_bank_used m b)\<rparr>"
  by (simp add: mark_rom_bank_used_def Let_def split: option.splits)

lemma commit_bank_fields:
  "rom (commit_bank m s t bank) = rom m"
  "rom_block (commit_bank m s t bank) = (rom_block m)[t := Some (s * 4096)]"
  "rom_block_bank_id (commit_bank m s t bank) = (rom_block_bank_id m)[t := bank]"
  "rom_bank_id (commit_bank m s t bank) = (rom_bank_id m)[s := bank]"
  "rom_bank_loaded (commit_bank m s t bank) = (rom_bank_loaded m)[s := 1]"
  "rom_bank_use_order (commit_bank m s t bank) =
     rom_bank_use_order (mark_rom_bank_used (m\<lparr>rom_bank_use_order := rom_bank_use_order m\<rparr>) bank)"
  unfolding commit_bank_def
  by (subst mark_used_only_order, simp add: mark_rom_bank_used_def Let_def split: option.splits)+


lemma load_rom_bank_miss:
  assumes lo: "0x5FF8 \<le> reg" and hi: "reg \<le> 0x5FFF"
    and ok: "io_ok (fp nsf)"
    and miss: "find_loaded_bank (nes_memory nsf) bank = None"
    and slot: "(case find_empty_slot (nes_memory nsf) of
                  Some k \<Rightarrow> Inr (k, nes_memory nsf)
                | None \<Rightarrow> evict_oldest_bank (nes_memory nsf)) = Inr (s, m1)"
  shows "fst (nsf_load_rom_bank nsf reg bank) = ESP_OK"
    and "nes_memory (snd (nsf_load_rom_bank nsf reg bank)) =
           commit_bank
             (m1\<lparr>rom := mem_write (mem_write (rom m1) (s * 4096) (replicate 4096 0))
                   (s * 4096 + (if bank = 0 then unat (load_address (header nsf) AND 0x0FFF) else 0))
                   (if bank = 0
                    then take (4096 - unat (load_address (header nsf) AND 0x0FFF))
                           (drop 0x080 (contents (fp nsf)))
                    else take 4096 (drop (0x080 + (4096 - unat (load_address (header nsf) AND 0x0FFF))
                           + 4096 * (unat bank - 1)) (contents (fp nsf)))),
                 rom_bank_loaded := (rom_bank_loaded m1)[s := 0]\<rparr>)
             s (unat (reg - 0x5FF8)) bank"
    and "header (snd (nsf_load_rom_bank nsf reg bank)) = header nsf"
    and "io_ok (fp (snd (nsf_load_rom_bank nsf reg bank)))"
    and "contents (fp (snd (nsf_load_rom_bank nsf reg bank))) = contents (fp nsf)"
proof -
  let ?n1 = "nsf\<lparr>nes_memory := m1\<rparr>"
  let ?ld = "load_bank_data ?n1 s bank"
  have ok1: "io_ok (fp ?n1)" using ok by simp
  note ld = load_bank_data_result [OF ok1, of s bank]
  have rng: "\<not> (reg < 0x5FF8 \<or> reg > 0x5FFF)"
    using lo hi by (simp add: not_less)
  have e: "nsf_load_rom_bank nsf reg bank =
      (if \<not> fst ?ld then (ESP_FAIL, snd ?ld)
       else (ESP_OK, (snd ?ld)\<lparr>nes_memory :=
               commit_bank (nes_memory (snd ?ld)) s (unat (reg - 0x5FF8)) bank\<rparr>))"
    using rng miss slot target_block(1) [OF lo hi]
    by (simp add: nsf_load_rom_bank_def Let_def split_beta)
  have e': "nsf_load_rom_bank nsf reg bank =
      (ESP_OK, (snd ?ld)\<lparr>nes_memory :=
               commit_bank (nes_memory (snd ?ld)) s (unat (reg - 0x5FF8)) bank\<rparr>)"
    unfolding e using ld(1) by simp
  show "fst (nsf_load_rom_bank nsf reg bank) = ESP_OK"
    unfolding e' by simp
  show "nes_memory (snd (nsf_load_rom_bank nsf reg bank)) =
           commit_bank
             (m1\<lparr>rom := mem_write (mem_write (rom m1) (s * 4096) (replicate 4096 0))
                   (s * 4096 + (if bank = 0 then unat (load_address (header nsf) AND 0x0FFF) else 0))
                   (if bank = 0
                    then take (4096 - unat (load_address (header nsf) AND 0x0FFF))
                           (drop 0x080 (contents (fp nsf)))
                    else take 4096 (drop (0x080 + (4096 - unat (load_address (header nsf) AND 0x0FFF))
                           + 4096 * (unat bank - 1)) (contents (fp nsf)))),
                 rom_bank_loaded := (rom_bank_loaded m1)[s := 0]\<rparr>)
             s (unat (reg - 0x5FF8)) bank"
    unfolding e' using ld(2) by simp
  show "header (snd (nsf_load_rom_bank nsf reg bank)) = header nsf"
    unfolding e' using ld(3) by simp
  show "io_ok (fp (snd (nsf_load_rom_bank nsf reg bank)))"
    unfolding e' using ld(4) by simp
  show "contents (fp (snd (nsf_load_rom_bank nsf reg bank))) = contents (fp nsf)"
    unfolding e' using ld(5) by simp
qed

lemma load_rom_bank_no_slot:
  assumes lo: "0x5FF8 \<le> reg" and hi: "reg \<le> 0x5FFF"
    and miss: "find_loaded_bank (nes_memory nsf) bank = None"
    and slot: "(case find_empty_slot (nes_memory nsf) of
                  Some k \<Rightarrow> Inr (k, nes_memory nsf)
                | None \<Rightarrow> evict_oldest_bank (nes_memory nsf)) = Inl e"
  shows "nsf_load_rom_bank nsf reg bank = (e, nsf)"
proof -
  have rng: "\<not> (reg < 0x5FF8 \<or> reg > 0x5FFF)"
    using lo hi by (simp add: not_less)
  show ?thesis
    using rng miss slot by (simp add: nsf_load_rom_bank_def Let_def)
qed

lemma evict_error: "evict_oldest_bank m = Inl e \<Longrightarrow> e = ESP_FAIL"
  by (auto simp: evict_oldest_bank_def Let_def split: if_splits option.splits)


lemma slot_choice:
  assumes sizes: "nes_memory_sizes m"
    and slot: "(case find_empty_slot m of Some k \<Rightarrow> Inr (k, m) | None \<Rightarrow> evict_oldest_bank m)
                 = Inr (s, m1)"
  shows "s < ROM_BANK_COUNT" and "rom m1 = rom m"
    and "length (rom_block m1) = 8" and "length (rom_bank_id m1) = ROM_BANK_COUNT"
    and "length (rom_bank_loaded m1) = ROM_BANK_COUNT"
proof -
  have "s < ROM_BANK_COUNT \<and> rom m1 = rom m \<and> length (rom_block m1) = 8 \<and>
      length (rom_bank_id m1) = ROM_BANK_COUNT \<and> length (rom_bank_loaded m1) = ROM_BANK_COUNT"
  proof (cases "find_empty_slot m")
    case (Some k)
    then have "s = k" "m1 = m" using slot by simp_all
    moreover have "k < ROM_BANK_COUNT"
      using Some find_upt_Some [of _ ROM_BANK_COUNT k] by (simp add: find_empty_slot_def)
    ultimately show ?thesis using sizes by (simp add: nes_memory_sizes_def)
  next
    case None
    then have ev: "evict_oldest_bank m = Inr (s, m1)" using slot by simp
    note r = evict_result [OF ev]
    show ?thesis
      using r(1) sizes unfolding r(5) by (simp add: clear_reference_keeps nes_memory_sizes_def)
  qed
  then show "s < ROM_BANK_COUNT" and "rom m1 = rom m"
    and "length (rom_block m1) = 8" and "length (rom_bank_id m1) = ROM_BANK_COUNT"
    and "length (rom_bank_loaded m1) = ROM_BANK_COUNT"
    by simp_all
qed

lemma upt_10: "[0..<ROM_BANK_COUNT] = [0, 1, 2, 3, 4, 5, 6, 7, 8, 9]"
  by (simp add: upt_rec)

lemma fresh_cache_facts:
  "nes_memory_sizes (nes_memory fresh_cache_nsf)"
  "length (rom (nes_memory fresh_cache_nsf)) = ROM_BANK_SIZE * ROM_BANK_COUNT"
  "io_ok (fp fresh_cache_nsf)"
  "find_loaded_bank (nes_memory fresh_cache_nsf) bank = None"
  "find_empty_slot (nes_memory fresh_cache_nsf) \<noteq> None"
  "unat (load_address (header fresh_cache_nsf) AND 0x0FFF) = 0"
  "contents (fp fresh_cache_nsf) =
     take 0x70 example_header_bytes @ [1, 1, 2, 3, 4, 5, 6, 7] @ replicate 8 0
       @ replicate 4096 0x10 @ replicate 100 0x22"
  by (simp_all add: fresh_cache_nsf_def banked_nsf_def nsf_init_nes_memory_def
      zero_nes_memory_def nes_memory_sizes_def banked_file_def banked_header_def
      example_header_def find_loaded_bank_def find_empty_slot_def upt_10)

lemma padded_cache_facts:
  "nes_memory_sizes (nes_memory padded_cache_nsf)"
  "length (rom (nes_memory padded_cache_nsf)) = ROM_BANK_SIZE * ROM_BANK_COUNT"
  "io_ok (fp padded_cache_nsf)"
  "find_loaded_bank (nes_memory padded_cache_nsf) bank = None"
  "find_empty_slot (nes_memory padded_cache_nsf) \<noteq> None"
  "unat (load_address (header padded_cache_nsf) AND 0x0FFF) = 16"
  "contents (fp padded_cache_nsf) =
     take 0x70 example_header_bytes @ [1, 1, 2, 3, 4, 5, 6, 7] @ replicate 8 0
       @ replicate 4096 0x10 @ replicate 100 0x22"
  by (simp_all add: padded_cache_nsf_def fresh_cache_nsf_def banked_nsf_def
      nsf_init_nes_memory_def zero_nes_memory_def nes_memory_sizes_def banked_file_def
      banked_header_def example_header_def find_loaded_bank_def find_empty_slot_def upt_10)

lemma example_offset_law_bytes:
  "offset_law_byte (take 0x70 example_header_bytes @ [1, 1, 2, 3, 4, 5, 6, 7] @ replicate 8 0
       @ replicate 4096 0x10 @ replicate 100 0x22) 0 1 5 = 0x22"
  "offset_law_byte (take 0x70 example_header_bytes @ [1, 1, 2, 3, 4, 5, 6, 7] @ replicate 8 0
       @ replicate 4096 0x10 @ replicate 100 0x22) 0 1 100 = 0"
  "offset_law_byte (take 0x70 example_header_bytes @ [1, 1, 2, 3, 4, 5, 6, 7] @ replicate 8 0
       @ replicate 4096 0x10 @ replicate 100 0x22) 16 0 3 = 0"
  "offset_law_byte (take 0x70 example_header_bytes @ [1, 1, 2, 3, 4, 5, 6, 7] @ replicate 8 0
       @ replicate 4096 0x10 @ replicate 100 0x22) 16 0 16 = 0x10"
  by (simp_all add: offset_law_byte_def example_header_bytes_def nth_append)

text \<open>
  Claim C6. Take a bank load on a working medium for a bank that is not cached, with
  \<^verbatim>\<open>padding = load_address & 0x0FFF\<close>. When a slot is empty the load succeeds. Whenever
  it succeeds, the target block points at the start of a slot \<open>s\<close> that is marked loaded
  with the bank, and every byte of that slot is the byte of the offset law: for
  \<^verbatim>\<open>bank > 0\<close> the slot from offset 0 holds the file bytes from
  \<^verbatim>\<open>0x80 + (4096 - padding) + 4096 * (bank - 1)\<close>, at most 4096 of them; for bank 0 the
  slot from offset \<open>padding\<close> holds the file bytes from \<^verbatim>\<open>0x80\<close>, at most
  \<^verbatim>\<open>4096 - padding\<close> of them; every other byte of the slot is zero. The bytes of the
  other slots are unchanged.
\<close>

theorem bank_offset_law:
  assumes lo: "0x5FF8 \<le> reg" and hi: "reg \<le> 0x5FFF"
    and sizes: "nes_memory_sizes (nes_memory nsf)"
    and rom: "length (rom (nes_memory nsf)) = ROM_BANK_SIZE * ROM_BANK_COUNT"
    and ok: "io_ok (fp nsf)"
    and miss: "find_loaded_bank (nes_memory nsf) bank = None"
  shows "(find_empty_slot (nes_memory nsf) \<noteq> None \<longrightarrow>
            fst (nsf_load_rom_bank nsf reg bank) = ESP_OK) \<and>
         (fst (nsf_load_rom_bank nsf reg bank) = ESP_OK \<longrightarrow>
            (\<exists>s. s < ROM_BANK_COUNT \<and>
               rom_block (nes_memory (snd (nsf_load_rom_bank nsf reg bank))) ! unat (reg - 0x5FF8)
                 = Some (s * 4096) \<and>
               rom_bank_id (nes_memory (snd (nsf_load_rom_bank nsf reg bank))) ! s = bank \<and>
               rom_bank_loaded (nes_memory (snd (nsf_load_rom_bank nsf reg bank))) ! s = 1 \<and>
               (\<forall>k. k < 4096 \<longrightarrow>
                  rom (nes_memory (snd (nsf_load_rom_bank nsf reg bank))) ! (s * 4096 + k) =
                    offset_law_byte (contents (fp nsf))
                      (unat (load_address (header nsf) AND 0x0FFF)) bank k) \<and>
               (\<forall>j. j < ROM_BANK_SIZE * ROM_BANK_COUNT \<and> \<not> (s * 4096 \<le> j \<and> j < s * 4096 + 4096) \<longrightarrow>
                  rom (nes_memory (snd (nsf_load_rom_bank nsf reg bank))) ! j =
                    rom (nes_memory nsf) ! j)))"
proof -
  let ?m = "nes_memory nsf"
  let ?R = "nsf_load_rom_bank nsf reg bank"
  let ?pad = "unat (load_address (header nsf) AND 0x0FFF)"
  let ?slot = "case find_empty_slot ?m of Some k \<Rightarrow> Inr (k, ?m) | None \<Rightarrow> evict_oldest_bank ?m"
  show ?thesis
  proof (cases ?slot)
    case (Inl e)
    then have none: "find_empty_slot ?m = None"
      by (cases "find_empty_slot ?m") simp_all
    then have "evict_oldest_bank ?m = Inl e" using Inl by simp
    then have "e = ESP_FAIL" by (rule evict_error)
    then have "fst ?R \<noteq> ESP_OK"
      using load_rom_bank_no_slot [OF lo hi miss Inl] by simp
    then show ?thesis using none by simp
  next
    case (Inr p)
    obtain s m1 where p: "p = (s, m1)" by (cases p)
    have slot: "?slot = Inr (s, m1)" using Inr p by simp
    note sc = slot_choice [OF sizes slot]
    note r = load_rom_bank_miss [OF lo hi ok miss slot]
    note t = target_block(2) [OF lo hi]
    let ?p = "if bank = 0 then ?pad else 0"
    let ?d = "if bank = 0
                    then take (4096 - ?pad) (drop 0x080 (contents (fp nsf)))
                    else take 4096 (drop (0x080 + (4096 - ?pad) + 4096 * (unat bank - 1))
                           (contents (fp nsf)))"
    let ?rom' = "mem_write (mem_write (rom m1) (s * 4096) (replicate 4096 0)) (s * 4096 + ?p) ?d"
    have pad: "?pad < 4096" by (rule padding_bound)
    have fit: "?p + length ?d \<le> 4096" using pad by (auto simp: min_def)
    have len1: "length (rom m1) = ROM_BANK_SIZE * ROM_BANK_COUNT"
      using sc(2) rom by simp
    note sf = slot_fill [OF len1 sc(1) fit]
    have rom': "rom (nes_memory (snd ?R)) = ?rom'"
      unfolding r(2) by (simp add: commit_bank_fields)
    have blk: "rom_block (nes_memory (snd ?R)) ! unat (reg - 0x5FF8) = Some (s * 4096)"
      unfolding r(2) using t sc(3) by (simp add: commit_bank_fields)
    have bid: "rom_bank_id (nes_memory (snd ?R)) ! s = bank"
      unfolding r(2) using sc(1) sc(4) by (simp add: commit_bank_fields)
    have ldd: "rom_bank_loaded (nes_memory (snd ?R)) ! s = 1"
      unfolding r(2) using sc(1) sc(5) by (simp add: commit_bank_fields)
    have bytes: "\<And>k. k < 4096 \<Longrightarrow> rom (nes_memory (snd ?R)) ! (s * 4096 + k) =
        offset_law_byte (contents (fp nsf)) ?pad bank k"
    proof -
      fix k :: nat
      assume k: "k < 4096"
      have "?rom' ! (s * 4096 + k) = (if ?p \<le> k \<and> k - ?p < length ?d then ?d ! (k - ?p) else 0)"
        by (rule sf(1) [OF k])
      also have "\<dots> = offset_law_byte (contents (fp nsf)) ?pad bank k"
        by (rule offset_law_take_drop [OF k pad])
      finally show "rom (nes_memory (snd ?R)) ! (s * 4096 + k) =
        offset_law_byte (contents (fp nsf)) ?pad bank k"
        unfolding rom' .
    qed
    have rest: "\<And>j. j < ROM_BANK_SIZE * ROM_BANK_COUNT \<Longrightarrow>
        \<not> (s * 4096 \<le> j \<and> j < s * 4096 + 4096) \<Longrightarrow>
        rom (nes_memory (snd ?R)) ! j = rom (nes_memory nsf) ! j"
      unfolding rom' using sf(2) sc(2) by simp
    have "\<exists>s. s < ROM_BANK_COUNT \<and>
               rom_block (nes_memory (snd ?R)) ! unat (reg - 0x5FF8) = Some (s * 4096) \<and>
               rom_bank_id (nes_memory (snd ?R)) ! s = bank \<and>
               rom_bank_loaded (nes_memory (snd ?R)) ! s = 1 \<and>
               (\<forall>k. k < 4096 \<longrightarrow>
                  rom (nes_memory (snd ?R)) ! (s * 4096 + k) =
                    offset_law_byte (contents (fp nsf)) ?pad bank k) \<and>
               (\<forall>j. j < ROM_BANK_SIZE * ROM_BANK_COUNT \<and> \<not> (s * 4096 \<le> j \<and> j < s * 4096 + 4096) \<longrightarrow>
                  rom (nes_memory (snd ?R)) ! j = rom (nes_memory nsf) ! j)"
      using sc(1) blk bid ldd bytes rest by blast
    then show ?thesis using r(1) by simp
  qed
qed


theorem bank_offset_law_witness:
  "(0x5FF8::u16) \<le> 0x5FF9 \<and> (0x5FF9::u16) \<le> 0x5FFF \<and>
   nes_memory_sizes (nes_memory fresh_cache_nsf) \<and>
   length (rom (nes_memory fresh_cache_nsf)) = ROM_BANK_SIZE * ROM_BANK_COUNT \<and>
   io_ok (fp fresh_cache_nsf) \<and>
   find_loaded_bank (nes_memory fresh_cache_nsf) 1 = None \<and>
   find_empty_slot (nes_memory fresh_cache_nsf) \<noteq> None \<and>
   fst (nsf_load_rom_bank fresh_cache_nsf 0x5FF9 1) = ESP_OK \<and>
   (\<exists>s. s < ROM_BANK_COUNT \<and>
      rom_block (nes_memory (snd (nsf_load_rom_bank fresh_cache_nsf 0x5FF9 1))) ! 1
        = Some (s * 4096) \<and>
      rom (nes_memory (snd (nsf_load_rom_bank fresh_cache_nsf 0x5FF9 1))) ! (s * 4096 + 5) = 0x22 \<and>
      rom (nes_memory (snd (nsf_load_rom_bank fresh_cache_nsf 0x5FF9 1))) ! (s * 4096 + 100) = 0) \<and>
   fst (nsf_load_rom_bank padded_cache_nsf 0x5FF9 0) = ESP_OK \<and>
   (\<exists>s. s < ROM_BANK_COUNT \<and>
      rom (nes_memory (snd (nsf_load_rom_bank padded_cache_nsf 0x5FF9 0))) ! (s * 4096 + 3) = 0 \<and>
      rom (nes_memory (snd (nsf_load_rom_bank padded_cache_nsf 0x5FF9 0))) ! (s * 4096 + 16) = 0x10)"
proof -
  have r: "(0x5FF8::u16) \<le> 0x5FF9" "(0x5FF9::u16) \<le> 0x5FFF" "unat ((0x5FF9::u16) - 0x5FF8) = 1"
    by simp_all
  note a = bank_offset_law [OF r(1,2) fresh_cache_facts(1,2,3,4), of 1,
      unfolded fresh_cache_facts(6,7) r(3)]
  note b = bank_offset_law [OF r(1,2) padded_cache_facts(1,2,3,4), of 0,
      unfolded padded_cache_facts(6,7) r(3)]
  have a1: "fst (nsf_load_rom_bank fresh_cache_nsf 0x5FF9 1) = ESP_OK"
    using a fresh_cache_facts(5) by blast
  have b1: "fst (nsf_load_rom_bank padded_cache_nsf 0x5FF9 0) = ESP_OK"
    using b padded_cache_facts(5) by blast
  obtain s where s: "s < ROM_BANK_COUNT"
      "rom_block (nes_memory (snd (nsf_load_rom_bank fresh_cache_nsf 0x5FF9 1))) ! 1
        = Some (s * 4096)"
      "\<And>k. k < 4096 \<Longrightarrow>
         rom (nes_memory (snd (nsf_load_rom_bank fresh_cache_nsf 0x5FF9 1))) ! (s * 4096 + k) =
         offset_law_byte (take 0x70 example_header_bytes @ [1, 1, 2, 3, 4, 5, 6, 7] @ replicate 8 0
           @ replicate 4096 0x10 @ replicate 100 0x22) 0 1 k"
    using a a1 by blast
  obtain s' where s': "s' < ROM_BANK_COUNT"
      "\<And>k. k < 4096 \<Longrightarrow>
         rom (nes_memory (snd (nsf_load_rom_bank padded_cache_nsf 0x5FF9 0))) ! (s' * 4096 + k) =
         offset_law_byte (take 0x70 example_header_bytes @ [1, 1, 2, 3, 4, 5, 6, 7] @ replicate 8 0
           @ replicate 4096 0x10 @ replicate 100 0x22) 16 0 k"
    using b b1 by blast
  have a2: "\<exists>s. s < ROM_BANK_COUNT \<and>
      rom_block (nes_memory (snd (nsf_load_rom_bank fresh_cache_nsf 0x5FF9 1))) ! 1
        = Some (s * 4096) \<and>
      rom (nes_memory (snd (nsf_load_rom_bank fresh_cache_nsf 0x5FF9 1))) ! (s * 4096 + 5) = 0x22 \<and>
      rom (nes_memory (snd (nsf_load_rom_bank fresh_cache_nsf 0x5FF9 1))) ! (s * 4096 + 100) = 0"
    using s(1,2) s(3) [of 5] s(3) [of 100] example_offset_law_bytes(1,2) by auto
  have b2: "\<exists>s. s < ROM_BANK_COUNT \<and>
      rom (nes_memory (snd (nsf_load_rom_bank padded_cache_nsf 0x5FF9 0))) ! (s * 4096 + 3) = 0 \<and>
      rom (nes_memory (snd (nsf_load_rom_bank padded_cache_nsf 0x5FF9 0))) ! (s * 4096 + 16) = 0x10"
    using s'(1) s'(2) [of 3] s'(2) [of 16] example_offset_law_bytes(3,4) by auto
  show ?thesis
    using r(1,2) fresh_cache_facts(1,2,3,5) fresh_cache_facts(4) [of 1] a1 a2 b1 b2 by blast
qed


subsection \<open>Eviction from a full cache\<close>

lemma shift_down_length: "length (shift_down xs i) = length xs"
  by (induction i arbitrary: xs) simp_all

lemma shift_down_nth:
  "i < length xs \<Longrightarrow> k < length xs \<Longrightarrow>
   shift_down xs i ! k = (if 0 < k \<and> k \<le> i then xs ! (k - 1) else xs ! k)"
proof (induction i arbitrary: xs)
  case 0
  then show ?case by simp
next
  case (Suc j)
  have "shift_down xs (Suc j) ! k = shift_down (xs[Suc j := xs ! j]) j ! k"
    by simp
  also have "\<dots> = (if 0 < k \<and> k \<le> j then (xs[Suc j := xs ! j]) ! (k - 1)
                    else (xs[Suc j := xs ! j]) ! k)"
    using Suc.IH [of "xs[Suc j := xs ! j]"] Suc.prems by simp
  also have "\<dots> = (if 0 < k \<and> k \<le> Suc j then xs ! (k - 1) else xs ! k)"
  proof (cases "k = Suc j")
    case True
    then show ?thesis using Suc.prems by simp
  next
    case False
    then show ?thesis using Suc.prems by (auto simp: nth_list_update)
  qed
  finally show ?case .
qed

lemma shift_down_insert:
  assumes "xs \<noteq> []"
  shows "(shift_down xs (length xs - 1))[0 := b] = b # butlast xs"
proof (rule nth_equalityI)
  show "length ((shift_down xs (length xs - 1))[0 := b]) = length (b # butlast xs)"
    using assms by (simp add: shift_down_length)
next
  fix k
  assume "k < length ((shift_down xs (length xs - 1))[0 := b])"
  then have k: "k < length xs" by (simp add: shift_down_length)
  have i: "length xs - 1 < length xs" using assms by simp
  show "(shift_down xs (length xs - 1))[0 := b] ! k = (b # butlast xs) ! k"
  proof (cases k)
    case 0
    then show ?thesis using k by (simp add: shift_down_length)
  next
    case (Suc k')
    then have le: "k \<le> length xs - 1" "0 < k" "k' < length xs - 1" using k by simp_all
    have "shift_down xs (length xs - 1) ! k = xs ! (k - 1)"
      using shift_down_nth [OF i k] le by simp
    then show ?thesis
      using Suc le by (simp add: nth_butlast)
  qed
qed

lemma mark_used_new_bank:
  assumes len: "length (rom_bank_use_order m) = ROM_BANK_COUNT"
    and new: "uint bank \<notin> set (rom_bank_use_order m)"
    and tail: "rom_bank_use_order m ! 9 = - 1"
  shows "rom_bank_use_order (mark_rom_bank_used m bank) = uint bank # butlast (rom_bank_use_order m)"
proof -
  let ?o = "rom_bank_use_order m"
  have ne: "?o \<noteq> []" using len by auto
  have "?o ! 0 \<in> set ?o"
    using len by (intro nth_mem) simp
  then have n0: "?o ! 0 \<noteq> uint bank"
    using new by auto
  have "\<And>i. i < ROM_BANK_COUNT \<Longrightarrow> ?o ! i \<noteq> uint bank"
    using new len nth_mem [of _ ?o] by metis
  then have nf: "find (\<lambda>i. ?o ! i = uint bank) [1..<ROM_BANK_COUNT] = None"
    by (auto simp: find_None_iff)
  have "rom_bank_use_order (mark_rom_bank_used m bank) = (shift_down ?o (length ?o - 1))[0 := uint bank]"
    using n0 nf tail len by (simp add: mark_rom_bank_used_def Let_def)
  then show ?thesis
    using shift_down_insert [OF ne] by simp
qed


lemma takeWhile_full: "length (takeWhile P xs) = length xs \<Longrightarrow> takeWhile P xs = xs"
proof -
  assume a: "length (takeWhile P xs) = length xs"
  have "length (takeWhile P xs) + length (dropWhile P xs) = length xs"
    by (metis length_append takeWhile_dropWhile_id)
  with a have "dropWhile P xs = []" by simp
  then show ?thesis
    by (metis append_Nil2 takeWhile_dropWhile_id)
qed

lemma full_cache_facts:
  assumes sizes: "nes_memory_sizes m" and full: "cache_full m" and inv: "lru_consistent m"
  shows "distinct (rom_bank_id m)"
    and "distinct (rom_bank_use_order m)"
    and "set (rom_bank_use_order m) = uint ` set (rom_bank_id m)"
    and "- 1 \<notin> set (rom_bank_use_order m)"
    and "find_empty_slot m = None"
proof -
  have li: "length (rom_bank_id m) = ROM_BANK_COUNT" and lo: "length (rom_bank_use_order m) = ROM_BANK_COUNT"
    using sizes by (simp_all add: nes_memory_sizes_def)
  have all: "\<And>i. i < ROM_BANK_COUNT \<Longrightarrow> rom_bank_loaded m ! i \<noteq> 0"
    using full by (simp add: cache_full_def list_all_iff)
  then have flt: "filter (\<lambda>i. rom_bank_loaded m ! i \<noteq> 0) [0..<ROM_BANK_COUNT] = [0..<ROM_BANK_COUNT]"
    by (simp add: filter_id_conv)
  have "map (\<lambda>i. rom_bank_id m ! i) [0..<ROM_BANK_COUNT] = rom_bank_id m"
    using map_nth [of "rom_bank_id m"] li by simp
  then have "map uint (rom_bank_id m) = map (\<lambda>i. uint (rom_bank_id m ! i)) [0..<ROM_BANK_COUNT]"
    by (metis (no_types, lifting) map_map comp_def map_eq_conv)
  then have cb: "cached_banks m = map uint (rom_bank_id m)"
    unfolding cached_banks_def flt by simp
  have d: "distinct (map uint (rom_bank_id m))"
    and l: "length (takeWhile (\<lambda>b. b \<noteq> - 1) (rom_bank_use_order m)) = ROM_BANK_COUNT"
    and s: "set (takeWhile (\<lambda>b. b \<noteq> - 1) (rom_bank_use_order m)) = set (map uint (rom_bank_id m))"
    using inv li unfolding lru_consistent_def cb by simp_all
  have tw: "takeWhile (\<lambda>b. b \<noteq> - 1) (rom_bank_use_order m) = rom_bank_use_order m"
    using l lo by (intro takeWhile_full) simp
  show "distinct (rom_bank_id m)"
    using d by (simp add: distinct_map)
  show so: "set (rom_bank_use_order m) = uint ` set (rom_bank_id m)"
    using s unfolding tw by simp
  have "card (set (rom_bank_use_order m)) = length (rom_bank_use_order m)"
    unfolding so using d li lo distinct_card [OF d] by simp
  then show "distinct (rom_bank_use_order m)"
    by (rule card_distinct)
  show "- 1 \<notin> set (rom_bank_use_order m)"
    using tw by (metis (mono_tags, lifting) set_takeWhileD)
  show "find_empty_slot m = None"
    using all by (simp add: find_empty_slot_def find_None_iff)
qed


lemma commit_bank_order:
  assumes len: "length (rom_bank_use_order M) = ROM_BANK_COUNT"
    and new: "uint bank \<notin> set (rom_bank_use_order M)"
    and tail: "rom_bank_use_order M ! 9 = - 1"
  shows "rom_bank_use_order (commit_bank M s t bank) = uint bank # butlast (rom_bank_use_order M)"
  unfolding commit_bank_def
  using mark_used_new_bank [of "M\<lparr>rom_bank_loaded := (rom_bank_loaded M)[s := 1],
          rom_bank_id := (rom_bank_id M)[s := bank],
          rom_block := (rom_block M)[t := Some (s * 4096)],
          rom_block_bank_id := (rom_block_bank_id M)[t := bank]\<rparr>" bank] len new tail
  by simp

lemma evict_full_cache:
  assumes sizes: "nes_memory_sizes m" and full: "cache_full m" and inv: "lru_consistent m"
  shows "\<exists>s. s < ROM_BANK_COUNT \<and>
           uint (rom_bank_id m ! s) = rom_bank_use_order m ! 9 \<and>
           evict_oldest_bank m =
             Inr (s, clear_rom_block_reference
                       (m\<lparr>rom_bank_use_order := (rom_bank_use_order m)[9 := - 1],
                          rom_bank_loaded := (rom_bank_loaded m)[s := 0],
                          rom_bank_id := (rom_bank_id m)[s := 0]\<rparr>) s)"
proof -
  note f = full_cache_facts [OF sizes full inv]
  let ?o = "rom_bank_use_order m"
  let ?P = "\<lambda>i. uint (rom_bank_id m ! i) = ?o ! 9"
  have li: "length (rom_bank_id m) = ROM_BANK_COUNT" and lo: "length ?o = ROM_BANK_COUNT"
    using sizes by (simp_all add: nes_memory_sizes_def)
  have t: "?o ! 9 \<in> set ?o"
    using lo by (intro nth_mem) simp
  then have ne: "?o ! 9 \<noteq> - 1"
    using f(4) by auto
  from t obtain b where b: "b \<in> set (rom_bank_id m)" "uint b = ?o ! 9"
    unfolding f(3) by auto
  then obtain i where i: "i < ROM_BANK_COUNT" "rom_bank_id m ! i = b"
    using li by (metis in_set_conv_nth)
  have "find ?P [0..<ROM_BANK_COUNT] \<noteq> None"
    using i b(2) by (auto simp: find_None_iff)
  then obtain s where s: "find ?P [0..<ROM_BANK_COUNT] = Some s"
    by auto
  note fs = find_upt_Some [OF s]
  have "evict_oldest_bank m =
             Inr (s, clear_rom_block_reference
                       (m\<lparr>rom_bank_use_order := ?o[9 := - 1],
                          rom_bank_loaded := (rom_bank_loaded m)[s := 0],
                          rom_bank_id := (rom_bank_id m)[s := 0]\<rparr>) s)"
    using ne s by (simp add: evict_oldest_bank_def Let_def)
  then show ?thesis
    using fs by blast
qed


lemma evict_and_load:
  assumes lo: "0x5FF8 \<le> reg" and hi: "reg \<le> 0x5FFF"
    and sizes: "nes_memory_sizes (nes_memory nsf)"
    and ok: "io_ok (fp nsf)"
    and full: "cache_full (nes_memory nsf)"
    and inv: "lru_consistent (nes_memory nsf)"
    and miss: "find_loaded_bank (nes_memory nsf) bank = None"
  shows "\<exists>s m1. s < ROM_BANK_COUNT \<and>
           rom_bank_use_order (nes_memory nsf) ! 9 =
             last (filter (\<lambda>b. b \<noteq> - 1) (rom_bank_use_order (nes_memory nsf))) \<and>
           uint (rom_bank_id (nes_memory nsf) ! s) = rom_bank_use_order (nes_memory nsf) ! 9 \<and>
           evict_oldest_bank (nes_memory nsf) = Inr (s, m1) \<and>
           rom_bank_loaded m1 ! s = 0 \<and>
           rom_bank_use_order m1 = butlast (rom_bank_use_order (nes_memory nsf)) @ [- 1] \<and>
           fst (nsf_load_rom_bank nsf reg bank) = ESP_OK \<and>
           rom_bank_id (nes_memory (snd (nsf_load_rom_bank nsf reg bank))) =
             (rom_bank_id (nes_memory nsf))[s := bank] \<and>
           rom_bank_loaded (nes_memory (snd (nsf_load_rom_bank nsf reg bank))) =
             (rom_bank_loaded (nes_memory nsf))[s := 1] \<and>
           rom_bank_use_order (nes_memory (snd (nsf_load_rom_bank nsf reg bank))) =
             uint bank # butlast (rom_bank_use_order (nes_memory nsf)) \<and>
           rom_bank_use_order (nes_memory nsf) ! 9 \<notin>
             set (rom_bank_use_order (nes_memory (snd (nsf_load_rom_bank nsf reg bank)))) \<and>
           find_loaded_bank (nes_memory (snd (nsf_load_rom_bank nsf reg bank)))
             (rom_bank_id (nes_memory nsf) ! s) = None"
proof -
  let ?m = "nes_memory nsf"
  let ?o = "rom_bank_use_order ?m"
  let ?ids = "rom_bank_id ?m"
  let ?R = "nsf_load_rom_bank nsf reg bank"
  note f = full_cache_facts [OF sizes full inv]
  have li: "length ?ids = ROM_BANK_COUNT" and lo': "length ?o = ROM_BANK_COUNT"
    and ll: "length (rom_bank_loaded ?m) = ROM_BANK_COUNT"
    using sizes by (simp_all add: nes_memory_sizes_def)
  have one: "?o \<noteq> []" using lo' by auto
  obtain s where s: "s < ROM_BANK_COUNT" "uint (?ids ! s) = ?o ! 9"
    and ev: "evict_oldest_bank ?m =
             Inr (s, clear_rom_block_reference
                       (?m\<lparr>rom_bank_use_order := ?o[9 := - 1],
                          rom_bank_loaded := (rom_bank_loaded ?m)[s := 0],
                          rom_bank_id := ?ids[s := 0]\<rparr>) s)"
    using evict_full_cache [OF sizes full inv] by blast
  define m1 where "m1 = clear_rom_block_reference
                       (?m\<lparr>rom_bank_use_order := ?o[9 := - 1],
                          rom_bank_loaded := (rom_bank_loaded ?m)[s := 0],
                          rom_bank_id := ?ids[s := 0]\<rparr>) s"
  have m1: "rom_bank_use_order m1 = ?o[9 := - 1]" "rom_bank_loaded m1 = (rom_bank_loaded ?m)[s := 0]"
    "rom_bank_id m1 = ?ids[s := 0]"
    unfolding m1_def by (simp_all add: clear_reference_keeps)
  \<comment> \<open>the tail is the last entry that is not empty\<close>
  have flt: "filter (\<lambda>b. b \<noteq> - 1) ?o = ?o"
    using f(4) by (simp add: filter_id_conv) metis
  have lst: "last ?o = ?o ! 9"
    using lo' by (simp add: last_conv_nth one)
  have tail: "?o ! 9 = last (filter (\<lambda>b. b \<noteq> - 1) ?o)"
    unfolding flt lst ..
  \<comment> \<open>the state between eviction and load\<close>
  have l1: "rom_bank_loaded m1 ! s = 0"
    unfolding m1 using s(1) ll by simp
  have o1: "rom_bank_use_order m1 = butlast ?o @ [- 1]"
  proof -
    have "?o = butlast ?o @ [last ?o]" using one by simp
    then have "?o[9 := - 1] = (butlast ?o @ [last ?o])[length (butlast ?o) := - 1]"
      using lo' by simp
    also have "\<dots> = butlast ?o @ [- 1]"
      by (simp only: list_update_length)
    finally show ?thesis unfolding m1 .
  qed
  \<comment> \<open>the load itself\<close>
  have slot: "(case find_empty_slot ?m of Some k \<Rightarrow> Inr (k, ?m) | None \<Rightarrow> evict_oldest_bank ?m)
      = Inr (s, m1)"
    unfolding f(5) m1_def using ev by simp
  note r = load_rom_bank_miss [OF lo hi ok miss slot]
  have nb: "bank \<notin> set ?ids"
  proof
    assume "bank \<in> set ?ids"
    then obtain i where i: "i < ROM_BANK_COUNT" "?ids ! i = bank"
      using li by (metis in_set_conv_nth)
    have "rom_bank_loaded ?m ! i \<noteq> 0"
      using full i(1) by (simp add: cache_full_def list_all_iff)
    then show False
      using find_upt_None [OF miss [unfolded find_loaded_bank_def] i(1)] i(2) by simp
  qed
  then have nu: "uint bank \<notin> set ?o"
    unfolding f(3) by (auto simp: word_uint_eq_iff [symmetric])
  have "0 \<le> uint bank" by simp
  then have "uint bank \<noteq> - 1" by arith
  then have nu1: "uint bank \<notin> set (?o[9 := - 1])"
    using nu set_update_subset_insert [of ?o 9 "- 1"] by auto
  let ?M = "m1\<lparr>rom := mem_write (mem_write (rom m1) (s * 4096) (replicate 4096 0))
                   (s * 4096 + (if bank = 0 then unat (load_address (header nsf) AND 0x0FFF) else 0))
                   (if bank = 0
                    then take (4096 - unat (load_address (header nsf) AND 0x0FFF))
                           (drop 0x080 (contents (fp nsf)))
                    else take 4096 (drop (0x080 + (4096 - unat (load_address (header nsf) AND 0x0FFF))
                           + 4096 * (unat bank - 1)) (contents (fp nsf)))),
                 rom_bank_loaded := (rom_bank_loaded m1)[s := 0]\<rparr>"
  have M: "rom_bank_use_order ?M = ?o[9 := - 1]" "rom_bank_id ?M = ?ids[s := 0]"
    "rom_bank_loaded ?M = (rom_bank_loaded ?m)[s := 0]"
    using m1 by simp_all
  have ids': "rom_bank_id (nes_memory (snd ?R)) = ?ids[s := bank]"
    unfolding r(2) commit_bank_fields M by simp
  have ld': "rom_bank_loaded (nes_memory (snd ?R)) = (rom_bank_loaded ?m)[s := 1]"
    unfolding r(2) commit_bank_fields M by simp
  have "rom_bank_use_order (commit_bank ?M s (unat (reg - 0x5FF8)) bank) =
      uint bank # butlast (rom_bank_use_order ?M)"
    by (rule commit_bank_order) (use M(1) lo' nu1 in simp_all)
  then have "rom_bank_use_order (nes_memory (snd ?R)) = uint bank # butlast (?o[9 := - 1])"
    unfolding r(2) M(1) .
  then have o': "rom_bank_use_order (nes_memory (snd ?R)) = uint bank # butlast ?o"
    using lo' by (simp add: butlast_list_update)
  \<comment> \<open>the evicted bank is gone\<close>
  have "last ?o \<notin> set (butlast ?o)"
    using f(2) one by (metis append_butlast_last_id distinct_butlast not_distinct_conv_prefix)
  moreover have "?o ! 9 \<in> set ?o"
    using lo' by (intro nth_mem) simp
  then have "?o ! 9 \<noteq> uint bank"
    using nu by auto
  ultimately have gone: "?o ! 9 \<notin> set (rom_bank_use_order (nes_memory (snd ?R)))"
    unfolding o' lst by simp
  have "\<And>i. i < ROM_BANK_COUNT \<Longrightarrow> (?ids[s := bank]) ! i \<noteq> ?ids ! s"
  proof -
    fix i assume i: "i < ROM_BANK_COUNT"
    show "(?ids[s := bank]) ! i \<noteq> ?ids ! s"
    proof (cases "i = s")
      case True
      have "?ids ! s \<in> set ?ids"
        using s(1) li by (intro nth_mem) simp
      then show ?thesis using True nb s(1) li by auto
    next
      case False
      then show ?thesis
        using f(1) i s(1) li by (simp add: nth_eq_iff_index_eq)
    qed
  qed
  then have uncached: "find_loaded_bank (nes_memory (snd ?R)) (?ids ! s) = None"
    unfolding find_loaded_bank_def ids' by (auto simp: find_None_iff)
  show ?thesis
    using s tail ev [folded m1_def] l1 o1 r(1) ids' ld' o' gone uncached by blast
qed

text \<open>
  Claim C2. Take a cache in which all ten slots are loaded and the invariants of the use
  list hold, a working medium, and a bank that is not cached. Loading that bank succeeds
  and evicts exactly the bank at the tail of the use list as it was before the load,
  which is its last entry that is not empty: the slot \<open>s\<close> that held the tail bank is
  marked unloaded and the tail entry is cleared before anything is read; after the load
  slot \<open>s\<close> holds the new bank and no other slot changed, the use list is the new bank
  followed by the old list without its tail, and the evicted bank is neither in the use
  list nor cached.
\<close>

theorem eviction_order:
  assumes lo: "0x5FF8 \<le> reg" and hi: "reg \<le> 0x5FFF"
    and sizes: "nes_memory_sizes (nes_memory nsf)"
    and ok: "io_ok (fp nsf)"
    and full: "cache_full (nes_memory nsf)"
    and inv: "lru_consistent (nes_memory nsf)"
    and miss: "find_loaded_bank (nes_memory nsf) bank = None"
  shows "\<exists>s m1. s < ROM_BANK_COUNT \<and>
           rom_bank_use_order (nes_memory nsf) ! 9 =
             last (filter (\<lambda>b. b \<noteq> - 1) (rom_bank_use_order (nes_memory nsf))) \<and>
           uint (rom_bank_id (nes_memory nsf) ! s) = rom_bank_use_order (nes_memory nsf) ! 9 \<and>
           evict_oldest_bank (nes_memory nsf) = Inr (s, m1) \<and>
           rom_bank_loaded m1 ! s = 0 \<and>
           rom_bank_use_order m1 = butlast (rom_bank_use_order (nes_memory nsf)) @ [- 1] \<and>
           fst (nsf_load_rom_bank nsf reg bank) = ESP_OK \<and>
           rom_bank_id (nes_memory (snd (nsf_load_rom_bank nsf reg bank))) =
             (rom_bank_id (nes_memory nsf))[s := bank] \<and>
           rom_bank_loaded (nes_memory (snd (nsf_load_rom_bank nsf reg bank))) =
             (rom_bank_loaded (nes_memory nsf))[s := 1] \<and>
           rom_bank_use_order (nes_memory (snd (nsf_load_rom_bank nsf reg bank))) =
             uint bank # butlast (rom_bank_use_order (nes_memory nsf)) \<and>
           rom_bank_use_order (nes_memory nsf) ! 9 \<notin>
             set (rom_bank_use_order (nes_memory (snd (nsf_load_rom_bank nsf reg bank)))) \<and>
           find_loaded_bank (nes_memory (snd (nsf_load_rom_bank nsf reg bank)))
             (rom_bank_id (nes_memory nsf) ! s) = None"
  using lo hi sizes ok full inv miss by (rule evict_and_load)


lemma upt_8: "[0..<8] = [0, 1, 2, 3, 4, 5, 6, 7]"
  by (simp add: upt_rec)

lemma full_cache_fields:
  "rom_bank_id (nes_memory full_cache_nsf) = [1, 2, 3, 4, 5, 6, 7, 8, 9, 10]"
  "rom_bank_loaded (nes_memory full_cache_nsf) = [1, 1, 1, 1, 1, 1, 1, 1, 1, 1]"
  "rom_bank_use_order (nes_memory full_cache_nsf) = [10, 9, 8, 7, 6, 5, 4, 3, 2, 1]"
  "rom_block (nes_memory full_cache_nsf) =
     [Some 36864, Some 0, Some 4096, Some 8192, Some 12288, Some 16384, Some 20480, Some 24576]"
  "rom_block_bank_id (nes_memory full_cache_nsf) = [10, 1, 2, 3, 4, 5, 6, 7]"
  "bank_regs (nes_memory full_cache_nsf) = [10, 0, 0, 0, 0, 0, 0, 0]"
  "io_ok (fp full_cache_nsf)"
  by (simp_all add: full_cache_nsf_def fresh_cache_nsf_def banked_nsf_def
      nsf_init_nes_memory_def banked_file_def)

lemma full_cache_sizes: "nes_memory_sizes (nes_memory full_cache_nsf)"
  by (simp add: nes_memory_sizes_def full_cache_fields)
    (simp add: full_cache_nsf_def fresh_cache_nsf_def banked_nsf_def
      nsf_init_nes_memory_def zero_nes_memory_def)

lemma full_cache_full: "cache_full (nes_memory full_cache_nsf)"
  by (simp add: cache_full_def full_cache_fields upt_10)

lemma full_cache_lru: "lru_consistent (nes_memory full_cache_nsf)"
  by (simp add: lru_consistent_def cached_banks_def full_cache_fields upt_10) auto

lemma full_cache_miss: "find_loaded_bank (nes_memory full_cache_nsf) 11 = None"
  by (simp add: find_loaded_bank_def full_cache_fields upt_10)


theorem eviction_order_witness:
  "(0x5FF8::u16) \<le> 0x5FF8 \<and> (0x5FF8::u16) \<le> 0x5FFF \<and>
   nes_memory_sizes (nes_memory full_cache_nsf) \<and> io_ok (fp full_cache_nsf) \<and>
   cache_full (nes_memory full_cache_nsf) \<and> lru_consistent (nes_memory full_cache_nsf) \<and>
   find_loaded_bank (nes_memory full_cache_nsf) 11 = None \<and>
   rom_bank_use_order (nes_memory full_cache_nsf) ! 9 = 1 \<and>
   fst (nsf_load_rom_bank full_cache_nsf 0x5FF8 11) = ESP_OK \<and>
   rom_bank_use_order (nes_memory (snd (nsf_load_rom_bank full_cache_nsf 0x5FF8 11))) =
     [11, 10, 9, 8, 7, 6, 5, 4, 3, 2] \<and>
   find_loaded_bank (nes_memory (snd (nsf_load_rom_bank full_cache_nsf 0x5FF8 11))) 1 = None"
proof -
  have r: "(0x5FF8::u16) \<le> 0x5FF8" "(0x5FF8::u16) \<le> 0x5FFF"
    by simp_all
  have t: "rom_bank_use_order (nes_memory full_cache_nsf) ! 9 = 1"
    by (simp add: full_cache_fields)
  obtain s where s: "s < ROM_BANK_COUNT"
    "uint (rom_bank_id (nes_memory full_cache_nsf) ! s) = rom_bank_use_order (nes_memory full_cache_nsf) ! 9"
    "fst (nsf_load_rom_bank full_cache_nsf 0x5FF8 11) = ESP_OK"
    "rom_bank_use_order (nes_memory (snd (nsf_load_rom_bank full_cache_nsf 0x5FF8 11))) =
       uint (11::u8) # butlast (rom_bank_use_order (nes_memory full_cache_nsf))"
    "find_loaded_bank (nes_memory (snd (nsf_load_rom_bank full_cache_nsf 0x5FF8 11)))
       (rom_bank_id (nes_memory full_cache_nsf) ! s) = None"
    using eviction_order [OF r full_cache_sizes full_cache_fields(7) full_cache_full
        full_cache_lru full_cache_miss]
    by blast
  have "uint (rom_bank_id (nes_memory full_cache_nsf) ! s) = 1"
    using s(2) t by simp
  then have "rom_bank_id (nes_memory full_cache_nsf) ! s = 1"
    by (metis uint_1_eq word_uint_eq_iff)
  then have u: "find_loaded_bank (nes_memory (snd (nsf_load_rom_bank full_cache_nsf 0x5FF8 11))) 1 = None"
    using s(5) by simp
  have o: "rom_bank_use_order (nes_memory (snd (nsf_load_rom_bank full_cache_nsf 0x5FF8 11))) =
     [11, 10, 9, 8, 7, 6, 5, 4, 3, 2]"
    unfolding s(4) by (simp add: full_cache_fields)
  show ?thesis
    using r full_cache_sizes full_cache_fields(7) full_cache_full full_cache_lru
      full_cache_miss t s(3) o u by blast
qed


subsection \<open>The bookkeeping of a load, step by step\<close>

lemma mark_used_order_only:
  "rom_bank_use_order (mark_rom_bank_used M b) =
   rom_bank_use_order (mark_rom_bank_used (zero_nes_memory\<lparr>rom_bank_use_order := rom_bank_use_order M\<rparr>) b)"
  by (simp add: mark_rom_bank_used_def Let_def split: option.splits)

lemma commit_bank_view:
  assumes v: "cache_view M = (blk, bbid, ids, ld, ord)"
    and touch: "rom_bank_use_order
        (mark_rom_bank_used (zero_nes_memory\<lparr>rom_bank_use_order := ord\<rparr>) bank) = ord'"
  shows "cache_view (commit_bank M s t bank) =
           (blk[t := Some (s * 4096)], bbid[t := bank], ids[s := bank], ld[s := 1], ord')"
proof -
  let ?M' = "M\<lparr>rom_bank_loaded := (rom_bank_loaded M)[s := 1],
          rom_bank_id := (rom_bank_id M)[s := bank],
          rom_block := (rom_block M)[t := Some (s * 4096)],
          rom_block_bank_id := (rom_block_bank_id M)[t := bank]\<rparr>"
  have o: "rom_bank_use_order (commit_bank M s t bank) = ord'"
    unfolding commit_bank_def
    using mark_used_order_only [of ?M' bank] v touch by (simp add: cache_view_def)
  show ?thesis
    using v o by (simp add: cache_view_def commit_bank_fields)
qed

lemma load_step_hit:
  assumes lo: "0x5FF8 \<le> reg" and hi: "reg \<le> 0x5FFF"
    and v: "cache_view (nes_memory nsf) = (blk, bbid, ids, ld, ord)"
    and hit: "find (\<lambda>i. ld ! i \<noteq> 0 \<and> ids ! i = bank) [0..<ROM_BANK_COUNT] = Some s"
    and touch: "rom_bank_use_order
        (mark_rom_bank_used (zero_nes_memory\<lparr>rom_bank_use_order := ord\<rparr>) bank) = ord'"
  shows "fst (nsf_load_rom_bank nsf reg bank) = ESP_OK"
    and "cache_view (nes_memory (snd (nsf_load_rom_bank nsf reg bank))) =
           (blk[unat (reg - 0x5FF8) := Some (s * 4096)], bbid[unat (reg - 0x5FF8) := bank],
            ids, ld, ord')"
    and "fp (snd (nsf_load_rom_bank nsf reg bank)) = fp nsf"
proof -
  let ?t = "unat (reg - 0x5FF8)"
  let ?M' = "(nes_memory nsf)\<lparr>rom_block := (rom_block (nes_memory nsf))[?t := Some (s * 4096)],
                        rom_block_bank_id := (rom_block_bank_id (nes_memory nsf))[?t := bank]\<rparr>"
  have rng: "\<not> (reg < 0x5FF8 \<or> reg > 0x5FFF)"
    using lo hi by (simp add: not_less)
  have f: "find_loaded_bank (nes_memory nsf) bank = Some s"
    using v hit by (simp add: find_loaded_bank_def cache_view_def)
  have e: "nsf_load_rom_bank nsf reg bank =
      (ESP_OK, nsf\<lparr>nes_memory := mark_rom_bank_used ?M' bank\<rparr>)"
    using rng f target_block(1) [OF lo hi] by (simp add: nsf_load_rom_bank_def Let_def)
  have o: "rom_bank_use_order (mark_rom_bank_used ?M' bank) = ord'"
    using mark_used_order_only [of ?M' bank] v touch by (simp add: cache_view_def)
  have rest: "mark_rom_bank_used ?M' bank =
      ?M'\<lparr>rom_bank_use_order := rom_bank_use_order (mark_rom_bank_used ?M' bank)\<rparr>"
    by (rule mark_used_only_order)
  show "fst (nsf_load_rom_bank nsf reg bank) = ESP_OK"
    unfolding e by simp
  show "fp (snd (nsf_load_rom_bank nsf reg bank)) = fp nsf"
    unfolding e by simp
  have "cache_view (mark_rom_bank_used ?M' bank) =
           (blk[?t := Some (s * 4096)], bbid[?t := bank], ids, ld, ord')"
    by (subst rest) (use v o in \<open>simp add: cache_view_def\<close>)
  then show "cache_view (nes_memory (snd (nsf_load_rom_bank nsf reg bank))) =
           (blk[?t := Some (s * 4096)], bbid[?t := bank], ids, ld, ord')"
    unfolding e by simp
qed

lemma load_step_empty:
  assumes lo: "0x5FF8 \<le> reg" and hi: "reg \<le> 0x5FFF"
    and ok: "io_ok (fp nsf)"
    and v: "cache_view (nes_memory nsf) = (blk, bbid, ids, ld, ord)"
    and miss: "find (\<lambda>i. ld ! i \<noteq> 0 \<and> ids ! i = bank) [0..<ROM_BANK_COUNT] = None"
    and empty: "find (\<lambda>i. ld ! i = 0) [0..<ROM_BANK_COUNT] = Some s"
    and touch: "rom_bank_use_order
        (mark_rom_bank_used (zero_nes_memory\<lparr>rom_bank_use_order := ord\<rparr>) bank) = ord'"
  shows "fst (nsf_load_rom_bank nsf reg bank) = ESP_OK"
    and "cache_view (nes_memory (snd (nsf_load_rom_bank nsf reg bank))) =
           (blk[unat (reg - 0x5FF8) := Some (s * 4096)], bbid[unat (reg - 0x5FF8) := bank],
            ids[s := bank], ld[s := 1], ord')"
    and "io_ok (fp (snd (nsf_load_rom_bank nsf reg bank)))"
proof -
  have m: "find_loaded_bank (nes_memory nsf) bank = None"
    and e: "find_empty_slot (nes_memory nsf) = Some s"
    using v miss empty by (simp_all add: find_loaded_bank_def find_empty_slot_def cache_view_def)
  have slot: "(case find_empty_slot (nes_memory nsf) of
                  Some k \<Rightarrow> Inr (k, nes_memory nsf)
                | None \<Rightarrow> evict_oldest_bank (nes_memory nsf)) = Inr (s, nes_memory nsf)"
    by (simp add: e)
  note r = load_rom_bank_miss [OF lo hi ok m slot]
  show "fst (nsf_load_rom_bank nsf reg bank) = ESP_OK" by (rule r(1))
  show "io_ok (fp (snd (nsf_load_rom_bank nsf reg bank)))" by (rule r(4))
  let ?M = "(nes_memory nsf)\<lparr>rom := mem_write (mem_write (rom (nes_memory nsf)) (s * 4096) (replicate 4096 0))
                   (s * 4096 + (if bank = 0 then unat (load_address (header nsf) AND 0x0FFF) else 0))
                   (if bank = 0
                    then take (4096 - unat (load_address (header nsf) AND 0x0FFF))
                           (drop 0x080 (contents (fp nsf)))
                    else take 4096 (drop (0x080 + (4096 - unat (load_address (header nsf) AND 0x0FFF))
                           + 4096 * (unat bank - 1)) (contents (fp nsf)))),
                 rom_bank_loaded := (rom_bank_loaded (nes_memory nsf))[s := 0]\<rparr>"
  have v1: "cache_view ?M = (blk, bbid, ids, ld[s := 0], ord)"
    using v by (simp add: cache_view_def)
  show "cache_view (nes_memory (snd (nsf_load_rom_bank nsf reg bank))) =
           (blk[unat (reg - 0x5FF8) := Some (s * 4096)], bbid[unat (reg - 0x5FF8) := bank],
            ids[s := bank], ld[s := 1], ord')"
    unfolding r(2) using commit_bank_view [OF v1 touch, of s "unat (reg - 0x5FF8)"] by simp
qed


lemma load_step_evict:
  assumes lo: "0x5FF8 \<le> reg" and hi: "reg \<le> 0x5FFF"
    and ok: "io_ok (fp nsf)"
    and v: "cache_view (nes_memory nsf) = (blk, bbid, ids, ld, ord)"
    and miss: "find (\<lambda>i. ld ! i \<noteq> 0 \<and> ids ! i = bank) [0..<ROM_BANK_COUNT] = None"
    and noempty: "find (\<lambda>i. ld ! i = 0) [0..<ROM_BANK_COUNT] = None"
    and tail: "ord ! 9 \<noteq> - 1"
    and slot: "find (\<lambda>i. uint (ids ! i) = ord ! 9) [0..<ROM_BANK_COUNT] = Some s"
    and clear: "find (\<lambda>i. blk ! i \<noteq> None \<and> uint (bbid ! i) = int s) [0..<8] = None"
    and touch: "rom_bank_use_order
        (mark_rom_bank_used (zero_nes_memory\<lparr>rom_bank_use_order := ord[9 := - 1]\<rparr>) bank) = ord'"
  shows "fst (nsf_load_rom_bank nsf reg bank) = ESP_OK"
    and "cache_view (nes_memory (snd (nsf_load_rom_bank nsf reg bank))) =
           (blk[unat (reg - 0x5FF8) := Some (s * 4096)], bbid[unat (reg - 0x5FF8) := bank],
            ids[s := bank], ld[s := 1], ord')"
    and "io_ok (fp (snd (nsf_load_rom_bank nsf reg bank)))"
proof -
  let ?m = "nes_memory nsf"
  have f: "rom_block ?m = blk" "rom_block_bank_id ?m = bbid" "rom_bank_id ?m = ids"
    "rom_bank_loaded ?m = ld" "rom_bank_use_order ?m = ord"
    using v by (simp_all add: cache_view_def)
  have m: "find_loaded_bank ?m bank = None" and e: "find_empty_slot ?m = None"
    using miss noempty by (simp_all add: find_loaded_bank_def find_empty_slot_def f)
  define m0 where "m0 = ?m\<lparr>rom_bank_use_order := ord[9 := - 1],
                          rom_bank_loaded := ld[s := 0],
                          rom_bank_id := ids[s := 0]\<rparr>"
  have cl: "clear_rom_block_reference m0 s = m0"
    using clear by (simp add: clear_rom_block_reference_def m0_def f)
  have ev: "evict_oldest_bank ?m = Inr (s, m0)"
    using tail slot cl by (simp add: evict_oldest_bank_def Let_def f m0_def)
  have sl: "(case find_empty_slot ?m of Some k \<Rightarrow> Inr (k, ?m) | None \<Rightarrow> evict_oldest_bank ?m)
      = Inr (s, m0)"
    by (simp add: e ev)
  note r = load_rom_bank_miss [OF lo hi ok m sl]
  show "fst (nsf_load_rom_bank nsf reg bank) = ESP_OK" by (rule r(1))
  show "io_ok (fp (snd (nsf_load_rom_bank nsf reg bank)))" by (rule r(4))
  let ?M = "m0\<lparr>rom := mem_write (mem_write (rom m0) (s * 4096) (replicate 4096 0))
                   (s * 4096 + (if bank = 0 then unat (load_address (header nsf) AND 0x0FFF) else 0))
                   (if bank = 0
                    then take (4096 - unat (load_address (header nsf) AND 0x0FFF))
                           (drop 0x080 (contents (fp nsf)))
                    else take 4096 (drop (0x080 + (4096 - unat (load_address (header nsf) AND 0x0FFF))
                           + 4096 * (unat bank - 1)) (contents (fp nsf)))),
                 rom_bank_loaded := (rom_bank_loaded m0)[s := 0]\<rparr>"
  have v1: "cache_view ?M = (blk, bbid, ids[s := 0], ld[s := 0], ord[9 := - 1])"
    by (simp add: cache_view_def m0_def f)
  show "cache_view (nes_memory (snd (nsf_load_rom_bank nsf reg bank))) =
           (blk[unat (reg - 0x5FF8) := Some (s * 4096)], bbid[unat (reg - 0x5FF8) := bank],
            ids[s := bank], ld[s := 1], ord')"
    unfolding r(2) using commit_bank_view [OF v1 touch, of s "unat (reg - 0x5FF8)"] by simp
qed

lemma touch_new_bank:
  assumes "length ord = ROM_BANK_COUNT" "uint bank \<notin> set ord" "ord ! 9 = - 1"
  shows "rom_bank_use_order
        (mark_rom_bank_used (zero_nes_memory\<lparr>rom_bank_use_order := ord\<rparr>) bank) =
         uint bank # butlast ord"
  using mark_used_new_bank [of "zero_nes_memory\<lparr>rom_bank_use_order := ord\<rparr>" bank] assms
  by simp

lemma touch_head:
  assumes "ord ! 0 = uint bank"
  shows "rom_bank_use_order
        (mark_rom_bank_used (zero_nes_memory\<lparr>rom_bank_use_order := ord\<rparr>) bank) = ord"
  using assms by (simp add: mark_rom_bank_used_def)

lemma load_keeps_instance:
  "header (snd (nsf_load_rom_bank nsf reg bank)) = header nsf"
  "bank_regs (nes_memory (snd (nsf_load_rom_bank nsf reg bank))) = bank_regs (nes_memory nsf)"
  using load_rom_bank_fixed [of nsf reg bank] by (simp_all add: same_fixed_regions_def)


subsection \<open>Window consistency\<close>

lemma write_bank0:
  assumes act: "active_nsf_file w = Some n" and diff: "bank_regs (nes_memory n) ! 0 \<noteq> val"
  shows "active_nsf_file (write6502 0x5FF8 val w) =
     Some (snd (nsf_load_rom_bank
       (n\<lparr>nes_memory := (nes_memory n)\<lparr>bank_regs := (bank_regs (nes_memory n))[0 := val]\<rparr>\<rparr>)
       0x5FF8 val))"
  using act diff by (simp add: write6502_def Let_def)

lemma banked_initial_loads:
  assumes ok0: "io_ok (fp nsf0)"
    and h0: "bankswitch_init (header nsf0) = [1, 1, 2, 3, 4, 5, 6, 7]"
    and v0: "cache_view (nes_memory nsf0) =
      ([None, None, None, None, None, None, None, None],
       [0, 0, 0, 0, 0, 0, 0, 0], [0, 0, 0, 0, 0, 0, 0, 0, 0, 0],
       [0, 0, 0, 0, 0, 0, 0, 0, 0, 0],
       [- 1, - 1, - 1, - 1, - 1, - 1, - 1, - 1, - 1, - 1])"
  shows "fst (load_initial_banks nsf0 [0..<8]) = ESP_OK"
    and "cache_view (nes_memory (snd (load_initial_banks nsf0 [0..<8]))) =
      ([Some 0, Some 0, Some 4096, Some 8192, Some 12288, Some 16384, Some 20480, Some 24576],
       [1, 1, 2, 3, 4, 5, 6, 7], [1, 2, 3, 4, 5, 6, 7, 0, 0, 0],
       [1, 1, 1, 1, 1, 1, 1, 0, 0, 0],
       [7, 6, 5, 4, 3, 2, 1, - 1, - 1, - 1])"
    and "io_ok (fp (snd (load_initial_banks nsf0 [0..<8])))"
    and "header (snd (load_initial_banks nsf0 [0..<8])) = header nsf0"
    and "bank_regs (nes_memory (snd (load_initial_banks nsf0 [0..<8]))) = bank_regs (nes_memory nsf0)"
proof -
  note ok_nsf0 = ok0 and v_nsf0 = v0
  define s1 where "s1 = snd (nsf_load_rom_bank nsf0 0x5FF8 1)"
  have r_s1: "(0x5FF8::u16) \<le> 0x5FF8" "(0x5FF8::u16) \<le> 0x5FFF"
    by simp_all
  have t_s1: "rom_bank_use_order (mark_rom_bank_used (zero_nes_memory\<lparr>rom_bank_use_order :=
      [- 1, - 1, - 1, - 1, - 1, - 1, - 1, - 1, - 1, - 1]\<rparr>) 1) =
      [1, - 1, - 1, - 1, - 1, - 1, - 1, - 1, - 1, - 1]"
    using touch_new_bank [of "[- 1, - 1, - 1, - 1, - 1, - 1, - 1, - 1, - 1, - 1]" 1] by simp
  have c_s1: "find (\<lambda>i. ([0, 0, 0, 0, 0, 0, 0, 0, 0, 0]::u8 list) ! i \<noteq> 0 \<and> ([0, 0, 0, 0, 0, 0, 0, 0, 0, 0]::u8 list) ! i = 1) [0..<ROM_BANK_COUNT] = None"
    by (simp add: upt_10)
  have e_s1: "find (\<lambda>i. ([0, 0, 0, 0, 0, 0, 0, 0, 0, 0]::u8 list) ! i = 0) [0..<ROM_BANK_COUNT] = Some 0"
    by (simp add: upt_10)
  note st_s1 = load_step_empty [OF r_s1 ok_nsf0 v_nsf0 c_s1 e_s1 t_s1]
  have ok_s1: "io_ok (fp s1)"
    unfolding s1_def by (rule st_s1(3))
  have f_s1: "fst (nsf_load_rom_bank nsf0 0x5FF8 1) = ESP_OK"
    by (rule st_s1(1))
  have v_s1: "cache_view (nes_memory s1) =
      ([Some 0, None, None, None, None, None, None, None],
       [1, 0, 0, 0, 0, 0, 0, 0], [1, 0, 0, 0, 0, 0, 0, 0, 0, 0],
       [1, 0, 0, 0, 0, 0, 0, 0, 0, 0],
       [1, - 1, - 1, - 1, - 1, - 1, - 1, - 1, - 1, - 1])"
    unfolding s1_def using st_s1(2) by simp
  have h_s1: "header s1 = header nsf0" "bank_regs (nes_memory s1) = bank_regs (nes_memory nsf0)"
    unfolding s1_def by (simp_all add: load_keeps_instance)
  have l_s1: "load_initial_banks nsf0 [0, 1, 2, 3, 4, 5, 6, 7] = load_initial_banks s1 [1, 2, 3, 4, 5, 6, 7]"
    using f_s1 h0 by (simp add: s1_def split_beta)
  define s2 where "s2 = snd (nsf_load_rom_bank s1 0x5FF9 1)"
  have r_s2: "(0x5FF8::u16) \<le> 0x5FF9" "(0x5FF9::u16) \<le> 0x5FFF"
    by simp_all
  have t_s2: "rom_bank_use_order (mark_rom_bank_used (zero_nes_memory\<lparr>rom_bank_use_order :=
      [1, - 1, - 1, - 1, - 1, - 1, - 1, - 1, - 1, - 1]\<rparr>) 1) =
      [1, - 1, - 1, - 1, - 1, - 1, - 1, - 1, - 1, - 1]"
    by (rule touch_head) simp
  have c_s2: "find (\<lambda>i. ([1, 0, 0, 0, 0, 0, 0, 0, 0, 0]::u8 list) ! i \<noteq> 0 \<and> ([1, 0, 0, 0, 0, 0, 0, 0, 0, 0]::u8 list) ! i = 1) [0..<ROM_BANK_COUNT] = Some 0"
    by (simp add: upt_10)
  note st_s2 = load_step_hit [OF r_s2 v_s1 c_s2 t_s2]
  have ok_s2: "io_ok (fp s2)"
    unfolding s2_def st_s2(3) by (rule ok_s1)
  have f_s2: "fst (nsf_load_rom_bank s1 0x5FF9 1) = ESP_OK"
    by (rule st_s2(1))
  have v_s2: "cache_view (nes_memory s2) =
      ([Some 0, Some 0, None, None, None, None, None, None],
       [1, 1, 0, 0, 0, 0, 0, 0], [1, 0, 0, 0, 0, 0, 0, 0, 0, 0],
       [1, 0, 0, 0, 0, 0, 0, 0, 0, 0],
       [1, - 1, - 1, - 1, - 1, - 1, - 1, - 1, - 1, - 1])"
    unfolding s2_def using st_s2(2) by simp
  have h_s2: "header s2 = header nsf0" "bank_regs (nes_memory s2) = bank_regs (nes_memory nsf0)"
    unfolding s2_def using h_s1 by (simp_all add: load_keeps_instance)
  have l_s2: "load_initial_banks s1 [1, 2, 3, 4, 5, 6, 7] = load_initial_banks s2 [2, 3, 4, 5, 6, 7]"
    using f_s2 h_s1(1) h0 by (simp add: s2_def split_beta)
  define s3 where "s3 = snd (nsf_load_rom_bank s2 0x5FFA 2)"
  have r_s3: "(0x5FF8::u16) \<le> 0x5FFA" "(0x5FFA::u16) \<le> 0x5FFF"
    by simp_all
  have t_s3: "rom_bank_use_order (mark_rom_bank_used (zero_nes_memory\<lparr>rom_bank_use_order :=
      [1, - 1, - 1, - 1, - 1, - 1, - 1, - 1, - 1, - 1]\<rparr>) 2) =
      [2, 1, - 1, - 1, - 1, - 1, - 1, - 1, - 1, - 1]"
    using touch_new_bank [of "[1, - 1, - 1, - 1, - 1, - 1, - 1, - 1, - 1, - 1]" 2] by simp
  have c_s3: "find (\<lambda>i. ([1, 0, 0, 0, 0, 0, 0, 0, 0, 0]::u8 list) ! i \<noteq> 0 \<and> ([1, 0, 0, 0, 0, 0, 0, 0, 0, 0]::u8 list) ! i = 2) [0..<ROM_BANK_COUNT] = None"
    by (simp add: upt_10)
  have e_s3: "find (\<lambda>i. ([1, 0, 0, 0, 0, 0, 0, 0, 0, 0]::u8 list) ! i = 0) [0..<ROM_BANK_COUNT] = Some 1"
    by (simp add: upt_10)
  note st_s3 = load_step_empty [OF r_s3 ok_s2 v_s2 c_s3 e_s3 t_s3]
  have ok_s3: "io_ok (fp s3)"
    unfolding s3_def by (rule st_s3(3))
  have f_s3: "fst (nsf_load_rom_bank s2 0x5FFA 2) = ESP_OK"
    by (rule st_s3(1))
  have v_s3: "cache_view (nes_memory s3) =
      ([Some 0, Some 0, Some 4096, None, None, None, None, None],
       [1, 1, 2, 0, 0, 0, 0, 0], [1, 2, 0, 0, 0, 0, 0, 0, 0, 0],
       [1, 1, 0, 0, 0, 0, 0, 0, 0, 0],
       [2, 1, - 1, - 1, - 1, - 1, - 1, - 1, - 1, - 1])"
    unfolding s3_def using st_s3(2) by simp
  have h_s3: "header s3 = header nsf0" "bank_regs (nes_memory s3) = bank_regs (nes_memory nsf0)"
    unfolding s3_def using h_s2 by (simp_all add: load_keeps_instance)
  have l_s3: "load_initial_banks s2 [2, 3, 4, 5, 6, 7] = load_initial_banks s3 [3, 4, 5, 6, 7]"
    using f_s3 h_s2(1) h0 by (simp add: s3_def split_beta)
  define s4 where "s4 = snd (nsf_load_rom_bank s3 0x5FFB 3)"
  have r_s4: "(0x5FF8::u16) \<le> 0x5FFB" "(0x5FFB::u16) \<le> 0x5FFF"
    by simp_all
  have t_s4: "rom_bank_use_order (mark_rom_bank_used (zero_nes_memory\<lparr>rom_bank_use_order :=
      [2, 1, - 1, - 1, - 1, - 1, - 1, - 1, - 1, - 1]\<rparr>) 3) =
      [3, 2, 1, - 1, - 1, - 1, - 1, - 1, - 1, - 1]"
    using touch_new_bank [of "[2, 1, - 1, - 1, - 1, - 1, - 1, - 1, - 1, - 1]" 3] by simp
  have c_s4: "find (\<lambda>i. ([1, 1, 0, 0, 0, 0, 0, 0, 0, 0]::u8 list) ! i \<noteq> 0 \<and> ([1, 2, 0, 0, 0, 0, 0, 0, 0, 0]::u8 list) ! i = 3) [0..<ROM_BANK_COUNT] = None"
    by (simp add: upt_10)
  have e_s4: "find (\<lambda>i. ([1, 1, 0, 0, 0, 0, 0, 0, 0, 0]::u8 list) ! i = 0) [0..<ROM_BANK_COUNT] = Some 2"
    by (simp add: upt_10)
  note st_s4 = load_step_empty [OF r_s4 ok_s3 v_s3 c_s4 e_s4 t_s4]
  have ok_s4: "io_ok (fp s4)"
    unfolding s4_def by (rule st_s4(3))
  have f_s4: "fst (nsf_load_rom_bank s3 0x5FFB 3) = ESP_OK"
    by (rule st_s4(1))
  have v_s4: "cache_view (nes_memory s4) =
      ([Some 0, Some 0, Some 4096, Some 8192, None, None, None, None],
       [1, 1, 2, 3, 0, 0, 0, 0], [1, 2, 3, 0, 0, 0, 0, 0, 0, 0],
       [1, 1, 1, 0, 0, 0, 0, 0, 0, 0],
       [3, 2, 1, - 1, - 1, - 1, - 1, - 1, - 1, - 1])"
    unfolding s4_def using st_s4(2) by simp
  have h_s4: "header s4 = header nsf0" "bank_regs (nes_memory s4) = bank_regs (nes_memory nsf0)"
    unfolding s4_def using h_s3 by (simp_all add: load_keeps_instance)
  have l_s4: "load_initial_banks s3 [3, 4, 5, 6, 7] = load_initial_banks s4 [4, 5, 6, 7]"
    using f_s4 h_s3(1) h0 by (simp add: s4_def split_beta)
  define s5 where "s5 = snd (nsf_load_rom_bank s4 0x5FFC 4)"
  have r_s5: "(0x5FF8::u16) \<le> 0x5FFC" "(0x5FFC::u16) \<le> 0x5FFF"
    by simp_all
  have t_s5: "rom_bank_use_order (mark_rom_bank_used (zero_nes_memory\<lparr>rom_bank_use_order :=
      [3, 2, 1, - 1, - 1, - 1, - 1, - 1, - 1, - 1]\<rparr>) 4) =
      [4, 3, 2, 1, - 1, - 1, - 1, - 1, - 1, - 1]"
    using touch_new_bank [of "[3, 2, 1, - 1, - 1, - 1, - 1, - 1, - 1, - 1]" 4] by simp
  have c_s5: "find (\<lambda>i. ([1, 1, 1, 0, 0, 0, 0, 0, 0, 0]::u8 list) ! i \<noteq> 0 \<and> ([1, 2, 3, 0, 0, 0, 0, 0, 0, 0]::u8 list) ! i = 4) [0..<ROM_BANK_COUNT] = None"
    by (simp add: upt_10)
  have e_s5: "find (\<lambda>i. ([1, 1, 1, 0, 0, 0, 0, 0, 0, 0]::u8 list) ! i = 0) [0..<ROM_BANK_COUNT] = Some 3"
    by (simp add: upt_10)
  note st_s5 = load_step_empty [OF r_s5 ok_s4 v_s4 c_s5 e_s5 t_s5]
  have ok_s5: "io_ok (fp s5)"
    unfolding s5_def by (rule st_s5(3))
  have f_s5: "fst (nsf_load_rom_bank s4 0x5FFC 4) = ESP_OK"
    by (rule st_s5(1))
  have v_s5: "cache_view (nes_memory s5) =
      ([Some 0, Some 0, Some 4096, Some 8192, Some 12288, None, None, None],
       [1, 1, 2, 3, 4, 0, 0, 0], [1, 2, 3, 4, 0, 0, 0, 0, 0, 0],
       [1, 1, 1, 1, 0, 0, 0, 0, 0, 0],
       [4, 3, 2, 1, - 1, - 1, - 1, - 1, - 1, - 1])"
    unfolding s5_def using st_s5(2) by simp
  have h_s5: "header s5 = header nsf0" "bank_regs (nes_memory s5) = bank_regs (nes_memory nsf0)"
    unfolding s5_def using h_s4 by (simp_all add: load_keeps_instance)
  have l_s5: "load_initial_banks s4 [4, 5, 6, 7] = load_initial_banks s5 [5, 6, 7]"
    using f_s5 h_s4(1) h0 by (simp add: s5_def split_beta)
  define s6 where "s6 = snd (nsf_load_rom_bank s5 0x5FFD 5)"
  have r_s6: "(0x5FF8::u16) \<le> 0x5FFD" "(0x5FFD::u16) \<le> 0x5FFF"
    by simp_all
  have t_s6: "rom_bank_use_order (mark_rom_bank_used (zero_nes_memory\<lparr>rom_bank_use_order :=
      [4, 3, 2, 1, - 1, - 1, - 1, - 1, - 1, - 1]\<rparr>) 5) =
      [5, 4, 3, 2, 1, - 1, - 1, - 1, - 1, - 1]"
    using touch_new_bank [of "[4, 3, 2, 1, - 1, - 1, - 1, - 1, - 1, - 1]" 5] by simp
  have c_s6: "find (\<lambda>i. ([1, 1, 1, 1, 0, 0, 0, 0, 0, 0]::u8 list) ! i \<noteq> 0 \<and> ([1, 2, 3, 4, 0, 0, 0, 0, 0, 0]::u8 list) ! i = 5) [0..<ROM_BANK_COUNT] = None"
    by (simp add: upt_10)
  have e_s6: "find (\<lambda>i. ([1, 1, 1, 1, 0, 0, 0, 0, 0, 0]::u8 list) ! i = 0) [0..<ROM_BANK_COUNT] = Some 4"
    by (simp add: upt_10)
  note st_s6 = load_step_empty [OF r_s6 ok_s5 v_s5 c_s6 e_s6 t_s6]
  have ok_s6: "io_ok (fp s6)"
    unfolding s6_def by (rule st_s6(3))
  have f_s6: "fst (nsf_load_rom_bank s5 0x5FFD 5) = ESP_OK"
    by (rule st_s6(1))
  have v_s6: "cache_view (nes_memory s6) =
      ([Some 0, Some 0, Some 4096, Some 8192, Some 12288, Some 16384, None, None],
       [1, 1, 2, 3, 4, 5, 0, 0], [1, 2, 3, 4, 5, 0, 0, 0, 0, 0],
       [1, 1, 1, 1, 1, 0, 0, 0, 0, 0],
       [5, 4, 3, 2, 1, - 1, - 1, - 1, - 1, - 1])"
    unfolding s6_def using st_s6(2) by simp
  have h_s6: "header s6 = header nsf0" "bank_regs (nes_memory s6) = bank_regs (nes_memory nsf0)"
    unfolding s6_def using h_s5 by (simp_all add: load_keeps_instance)
  have l_s6: "load_initial_banks s5 [5, 6, 7] = load_initial_banks s6 [6, 7]"
    using f_s6 h_s5(1) h0 by (simp add: s6_def split_beta)
  define s7 where "s7 = snd (nsf_load_rom_bank s6 0x5FFE 6)"
  have r_s7: "(0x5FF8::u16) \<le> 0x5FFE" "(0x5FFE::u16) \<le> 0x5FFF"
    by simp_all
  have t_s7: "rom_bank_use_order (mark_rom_bank_used (zero_nes_memory\<lparr>rom_bank_use_order :=
      [5, 4, 3, 2, 1, - 1, - 1, - 1, - 1, - 1]\<rparr>) 6) =
      [6, 5, 4, 3, 2, 1, - 1, - 1, - 1, - 1]"
    using touch_new_bank [of "[5, 4, 3, 2, 1, - 1, - 1, - 1, - 1, - 1]" 6] by simp
  have c_s7: "find (\<lambda>i. ([1, 1, 1, 1, 1, 0, 0, 0, 0, 0]::u8 list) ! i \<noteq> 0 \<and> ([1, 2, 3, 4, 5, 0, 0, 0, 0, 0]::u8 list) ! i = 6) [0..<ROM_BANK_COUNT] = None"
    by (simp add: upt_10)
  have e_s7: "find (\<lambda>i. ([1, 1, 1, 1, 1, 0, 0, 0, 0, 0]::u8 list) ! i = 0) [0..<ROM_BANK_COUNT] = Some 5"
    by (simp add: upt_10)
  note st_s7 = load_step_empty [OF r_s7 ok_s6 v_s6 c_s7 e_s7 t_s7]
  have ok_s7: "io_ok (fp s7)"
    unfolding s7_def by (rule st_s7(3))
  have f_s7: "fst (nsf_load_rom_bank s6 0x5FFE 6) = ESP_OK"
    by (rule st_s7(1))
  have v_s7: "cache_view (nes_memory s7) =
      ([Some 0, Some 0, Some 4096, Some 8192, Some 12288, Some 16384, Some 20480, None],
       [1, 1, 2, 3, 4, 5, 6, 0], [1, 2, 3, 4, 5, 6, 0, 0, 0, 0],
       [1, 1, 1, 1, 1, 1, 0, 0, 0, 0],
       [6, 5, 4, 3, 2, 1, - 1, - 1, - 1, - 1])"
    unfolding s7_def using st_s7(2) by simp
  have h_s7: "header s7 = header nsf0" "bank_regs (nes_memory s7) = bank_regs (nes_memory nsf0)"
    unfolding s7_def using h_s6 by (simp_all add: load_keeps_instance)
  have l_s7: "load_initial_banks s6 [6, 7] = load_initial_banks s7 [7]"
    using f_s7 h_s6(1) h0 by (simp add: s7_def split_beta)
  define s8 where "s8 = snd (nsf_load_rom_bank s7 0x5FFF 7)"
  have r_s8: "(0x5FF8::u16) \<le> 0x5FFF" "(0x5FFF::u16) \<le> 0x5FFF"
    by simp_all
  have t_s8: "rom_bank_use_order (mark_rom_bank_used (zero_nes_memory\<lparr>rom_bank_use_order :=
      [6, 5, 4, 3, 2, 1, - 1, - 1, - 1, - 1]\<rparr>) 7) =
      [7, 6, 5, 4, 3, 2, 1, - 1, - 1, - 1]"
    using touch_new_bank [of "[6, 5, 4, 3, 2, 1, - 1, - 1, - 1, - 1]" 7] by simp
  have c_s8: "find (\<lambda>i. ([1, 1, 1, 1, 1, 1, 0, 0, 0, 0]::u8 list) ! i \<noteq> 0 \<and> ([1, 2, 3, 4, 5, 6, 0, 0, 0, 0]::u8 list) ! i = 7) [0..<ROM_BANK_COUNT] = None"
    by (simp add: upt_10)
  have e_s8: "find (\<lambda>i. ([1, 1, 1, 1, 1, 1, 0, 0, 0, 0]::u8 list) ! i = 0) [0..<ROM_BANK_COUNT] = Some 6"
    by (simp add: upt_10)
  note st_s8 = load_step_empty [OF r_s8 ok_s7 v_s7 c_s8 e_s8 t_s8]
  have ok_s8: "io_ok (fp s8)"
    unfolding s8_def by (rule st_s8(3))
  have f_s8: "fst (nsf_load_rom_bank s7 0x5FFF 7) = ESP_OK"
    by (rule st_s8(1))
  have v_s8: "cache_view (nes_memory s8) =
      ([Some 0, Some 0, Some 4096, Some 8192, Some 12288, Some 16384, Some 20480, Some 24576],
       [1, 1, 2, 3, 4, 5, 6, 7], [1, 2, 3, 4, 5, 6, 7, 0, 0, 0],
       [1, 1, 1, 1, 1, 1, 1, 0, 0, 0],
       [7, 6, 5, 4, 3, 2, 1, - 1, - 1, - 1])"
    unfolding s8_def using st_s8(2) by simp
  have h_s8: "header s8 = header nsf0" "bank_regs (nes_memory s8) = bank_regs (nes_memory nsf0)"
    unfolding s8_def using h_s7 by (simp_all add: load_keeps_instance)
  have l_s8: "load_initial_banks s7 [7] = load_initial_banks s8 []"
    using f_s8 h_s7(1) h0 by (simp add: s8_def split_beta)
  have run: "load_initial_banks nsf0 [0..<8] = (ESP_OK, s8)"
    unfolding upt_8 l_s1 l_s2 l_s3 l_s4 l_s5 l_s6 l_s7 l_s8 by simp
  show "fst (load_initial_banks nsf0 [0..<8]) = ESP_OK"
    unfolding run by simp
  show "cache_view (nes_memory (snd (load_initial_banks nsf0 [0..<8]))) =
      ([Some 0, Some 0, Some 4096, Some 8192, Some 12288, Some 16384, Some 20480, Some 24576],
       [1, 1, 2, 3, 4, 5, 6, 7], [1, 2, 3, 4, 5, 6, 7, 0, 0, 0],
       [1, 1, 1, 1, 1, 1, 1, 0, 0, 0],
       [7, 6, 5, 4, 3, 2, 1, - 1, - 1, - 1])"
    unfolding run using v_s8 by simp
  show "io_ok (fp (snd (load_initial_banks nsf0 [0..<8])))"
    unfolding run using ok_s8 by simp
  show "header (snd (load_initial_banks nsf0 [0..<8])) = header nsf0"
    unfolding run using h_s8 by simp
  show "bank_regs (nes_memory (snd (load_initial_banks nsf0 [0..<8]))) = bank_regs (nes_memory nsf0)"
    unfolding run using h_s8 by simp
qed
lemma banked_register_writes:
  assumes act_w0: "active_nsf_file w0 = Some n0"
    and ok_n0: "io_ok (fp n0)"
    and v_n0: "cache_view (nes_memory n0) =
      ([Some 0, Some 0, Some 4096, Some 8192, Some 12288, Some 16384, Some 20480, Some 24576],
       [1, 1, 2, 3, 4, 5, 6, 7], [1, 2, 3, 4, 5, 6, 7, 0, 0, 0],
       [1, 1, 1, 1, 1, 1, 1, 0, 0, 0],
       [7, 6, 5, 4, 3, 2, 1, - 1, - 1, - 1])"
    and b_n0: "bank_regs (nes_memory n0) = [0, 0, 0, 0, 0, 0, 0, 0]"
  shows "\<exists>n3 n4.
      active_nsf_file (cpu_run [Bus_write 0x5FF8 8, Bus_write 0x5FF8 9, Bus_write 0x5FF8 10] w0)
        = Some n3 \<and>
      cache_view (nes_memory n3) =
      ([Some 36864, Some 0, Some 4096, Some 8192, Some 12288, Some 16384, Some 20480, Some 24576],
       [10, 1, 2, 3, 4, 5, 6, 7], [1, 2, 3, 4, 5, 6, 7, 8, 9, 10],
       [1, 1, 1, 1, 1, 1, 1, 1, 1, 1],
       [10, 9, 8, 7, 6, 5, 4, 3, 2, 1]) \<and>
      active_nsf_file (cpu_run [Bus_write 0x5FF8 8, Bus_write 0x5FF8 9, Bus_write 0x5FF8 10,
          Bus_write 0x5FF8 11] w0) = Some n4 \<and>
      cache_view (nes_memory n4) =
      ([Some 0, Some 0, Some 4096, Some 8192, Some 12288, Some 16384, Some 20480, Some 24576],
       [11, 1, 2, 3, 4, 5, 6, 7], [11, 2, 3, 4, 5, 6, 7, 8, 9, 10],
       [1, 1, 1, 1, 1, 1, 1, 1, 1, 1],
       [11, 10, 9, 8, 7, 6, 5, 4, 3, 2])"
proof -
  define a1 where "a1 = n0\<lparr>nes_memory := (nes_memory n0)\<lparr>bank_regs := (bank_regs (nes_memory n0))[0 := 8]\<rparr>\<rparr>"
  have ok_a1: "io_ok (fp a1)"
    unfolding a1_def using ok_n0 by simp
  have v_a1: "cache_view (nes_memory a1) =
      ([Some 0, Some 0, Some 4096, Some 8192, Some 12288, Some 16384, Some 20480, Some 24576],
       [1, 1, 2, 3, 4, 5, 6, 7], [1, 2, 3, 4, 5, 6, 7, 0, 0, 0],
       [1, 1, 1, 1, 1, 1, 1, 0, 0, 0],
       [7, 6, 5, 4, 3, 2, 1, - 1, - 1, - 1])"
    unfolding a1_def using v_n0 by (simp add: cache_view_def)
  define n1 where "n1 = snd (nsf_load_rom_bank a1 0x5FF8 8)"
  have r_n1: "(0x5FF8::u16) \<le> 0x5FF8" "(0x5FF8::u16) \<le> 0x5FFF"
    by simp_all
  have t_n1: "rom_bank_use_order (mark_rom_bank_used (zero_nes_memory\<lparr>rom_bank_use_order :=
      [7, 6, 5, 4, 3, 2, 1, - 1, - 1, - 1]\<rparr>) 8) =
      [8, 7, 6, 5, 4, 3, 2, 1, - 1, - 1]"
    using touch_new_bank [of "[7, 6, 5, 4, 3, 2, 1, - 1, - 1, - 1]" 8] by simp
  have c_n1: "find (\<lambda>i. ([1, 1, 1, 1, 1, 1, 1, 0, 0, 0]::u8 list) ! i \<noteq> 0 \<and> ([1, 2, 3, 4, 5, 6, 7, 0, 0, 0]::u8 list) ! i = 8) [0..<ROM_BANK_COUNT] = None"
    by (simp add: upt_10)
  have e_n1: "find (\<lambda>i. ([1, 1, 1, 1, 1, 1, 1, 0, 0, 0]::u8 list) ! i = 0) [0..<ROM_BANK_COUNT] = Some 7"
    by (simp add: upt_10)
  note st_n1 = load_step_empty [OF r_n1 ok_a1 v_a1 c_n1 e_n1 t_n1]
  have ok_n1: "io_ok (fp n1)"
    unfolding n1_def by (rule st_n1(3))
  have f_n1: "fst (nsf_load_rom_bank a1 0x5FF8 8) = ESP_OK"
    by (rule st_n1(1))
  have v_n1: "cache_view (nes_memory n1) =
      ([Some 28672, Some 0, Some 4096, Some 8192, Some 12288, Some 16384, Some 20480, Some 24576],
       [8, 1, 2, 3, 4, 5, 6, 7], [1, 2, 3, 4, 5, 6, 7, 8, 0, 0],
       [1, 1, 1, 1, 1, 1, 1, 1, 0, 0],
       [8, 7, 6, 5, 4, 3, 2, 1, - 1, - 1])"
    unfolding n1_def using st_n1(2) by simp
  have b_n1: "bank_regs (nes_memory n1) = [8, 0, 0, 0, 0, 0, 0, 0]"
    unfolding n1_def load_keeps_instance(2) a1_def using b_n0 by simp
  define w1 where "w1 = write6502 0x5FF8 8 w0"
  have d_n1: "bank_regs (nes_memory n0) ! 0 \<noteq> 8"
    unfolding b_n0 by simp
  have act_w1: "active_nsf_file w1 = Some n1"
    unfolding w1_def n1_def a1_def by (rule write_bank0 [OF act_w0 d_n1])
  define a2 where "a2 = n1\<lparr>nes_memory := (nes_memory n1)\<lparr>bank_regs := (bank_regs (nes_memory n1))[0 := 9]\<rparr>\<rparr>"
  have ok_a2: "io_ok (fp a2)"
    unfolding a2_def using ok_n1 by simp
  have v_a2: "cache_view (nes_memory a2) =
      ([Some 28672, Some 0, Some 4096, Some 8192, Some 12288, Some 16384, Some 20480, Some 24576],
       [8, 1, 2, 3, 4, 5, 6, 7], [1, 2, 3, 4, 5, 6, 7, 8, 0, 0],
       [1, 1, 1, 1, 1, 1, 1, 1, 0, 0],
       [8, 7, 6, 5, 4, 3, 2, 1, - 1, - 1])"
    unfolding a2_def using v_n1 by (simp add: cache_view_def)
  define n2 where "n2 = snd (nsf_load_rom_bank a2 0x5FF8 9)"
  have r_n2: "(0x5FF8::u16) \<le> 0x5FF8" "(0x5FF8::u16) \<le> 0x5FFF"
    by simp_all
  have t_n2: "rom_bank_use_order (mark_rom_bank_used (zero_nes_memory\<lparr>rom_bank_use_order :=
      [8, 7, 6, 5, 4, 3, 2, 1, - 1, - 1]\<rparr>) 9) =
      [9, 8, 7, 6, 5, 4, 3, 2, 1, - 1]"
    using touch_new_bank [of "[8, 7, 6, 5, 4, 3, 2, 1, - 1, - 1]" 9] by simp
  have c_n2: "find (\<lambda>i. ([1, 1, 1, 1, 1, 1, 1, 1, 0, 0]::u8 list) ! i \<noteq> 0 \<and> ([1, 2, 3, 4, 5, 6, 7, 8, 0, 0]::u8 list) ! i = 9) [0..<ROM_BANK_COUNT] = None"
    by (simp add: upt_10)
  have e_n2: "find (\<lambda>i. ([1, 1, 1, 1, 1, 1, 1, 1, 0, 0]::u8 list) ! i = 0) [0..<ROM_BANK_COUNT] = Some 8"
    by (simp add: upt_10)
  note st_n2 = load_step_empty [OF r_n2 ok_a2 v_a2 c_n2 e_n2 t_n2]
  have ok_n2: "io_ok (fp n2)"
    unfolding n2_def by (rule st_n2(3))
  have f_n2: "fst (nsf_load_rom_bank a2 0x5FF8 9) = ESP_OK"
    by (rule st_n2(1))
  have v_n2: "cache_view (nes_memory n2) =
      ([Some 32768, Some 0, Some 4096, Some 8192, Some 12288, Some 16384, Some 20480, Some 24576],
       [9, 1, 2, 3, 4, 5, 6, 7], [1, 2, 3, 4, 5, 6, 7, 8, 9, 0],
       [1, 1, 1, 1, 1, 1, 1, 1, 1, 0],
       [9, 8, 7, 6, 5, 4, 3, 2, 1, - 1])"
    unfolding n2_def using st_n2(2) by simp
  have b_n2: "bank_regs (nes_memory n2) = [9, 0, 0, 0, 0, 0, 0, 0]"
    unfolding n2_def load_keeps_instance(2) a2_def using b_n1 by simp
  define w2 where "w2 = write6502 0x5FF8 9 w1"
  have d_n2: "bank_regs (nes_memory n1) ! 0 \<noteq> 9"
    unfolding b_n1 by simp
  have act_w2: "active_nsf_file w2 = Some n2"
    unfolding w2_def n2_def a2_def by (rule write_bank0 [OF act_w1 d_n2])
  define a3 where "a3 = n2\<lparr>nes_memory := (nes_memory n2)\<lparr>bank_regs := (bank_regs (nes_memory n2))[0 := 10]\<rparr>\<rparr>"
  have ok_a3: "io_ok (fp a3)"
    unfolding a3_def using ok_n2 by simp
  have v_a3: "cache_view (nes_memory a3) =
      ([Some 32768, Some 0, Some 4096, Some 8192, Some 12288, Some 16384, Some 20480, Some 24576],
       [9, 1, 2, 3, 4, 5, 6, 7], [1, 2, 3, 4, 5, 6, 7, 8, 9, 0],
       [1, 1, 1, 1, 1, 1, 1, 1, 1, 0],
       [9, 8, 7, 6, 5, 4, 3, 2, 1, - 1])"
    unfolding a3_def using v_n2 by (simp add: cache_view_def)
  define n3 where "n3 = snd (nsf_load_rom_bank a3 0x5FF8 10)"
  have r_n3: "(0x5FF8::u16) \<le> 0x5FF8" "(0x5FF8::u16) \<le> 0x5FFF"
    by simp_all
  have t_n3: "rom_bank_use_order (mark_rom_bank_used (zero_nes_memory\<lparr>rom_bank_use_order :=
      [9, 8, 7, 6, 5, 4, 3, 2, 1, - 1]\<rparr>) 10) =
      [10, 9, 8, 7, 6, 5, 4, 3, 2, 1]"
    using touch_new_bank [of "[9, 8, 7, 6, 5, 4, 3, 2, 1, - 1]" 10] by simp
  have c_n3: "find (\<lambda>i. ([1, 1, 1, 1, 1, 1, 1, 1, 1, 0]::u8 list) ! i \<noteq> 0 \<and> ([1, 2, 3, 4, 5, 6, 7, 8, 9, 0]::u8 list) ! i = 10) [0..<ROM_BANK_COUNT] = None"
    by (simp add: upt_10)
  have e_n3: "find (\<lambda>i. ([1, 1, 1, 1, 1, 1, 1, 1, 1, 0]::u8 list) ! i = 0) [0..<ROM_BANK_COUNT] = Some 9"
    by (simp add: upt_10)
  note st_n3 = load_step_empty [OF r_n3 ok_a3 v_a3 c_n3 e_n3 t_n3]
  have ok_n3: "io_ok (fp n3)"
    unfolding n3_def by (rule st_n3(3))
  have f_n3: "fst (nsf_load_rom_bank a3 0x5FF8 10) = ESP_OK"
    by (rule st_n3(1))
  have v_n3: "cache_view (nes_memory n3) =
      ([Some 36864, Some 0, Some 4096, Some 8192, Some 12288, Some 16384, Some 20480, Some 24576],
       [10, 1, 2, 3, 4, 5, 6, 7], [1, 2, 3, 4, 5, 6, 7, 8, 9, 10],
       [1, 1, 1, 1, 1, 1, 1, 1, 1, 1],
       [10, 9, 8, 7, 6, 5, 4, 3, 2, 1])"
    unfolding n3_def using st_n3(2) by simp
  have b_n3: "bank_regs (nes_memory n3) = [10, 0, 0, 0, 0, 0, 0, 0]"
    unfolding n3_def load_keeps_instance(2) a3_def using b_n2 by simp
  define w3 where "w3 = write6502 0x5FF8 10 w2"
  have d_n3: "bank_regs (nes_memory n2) ! 0 \<noteq> 10"
    unfolding b_n2 by simp
  have act_w3: "active_nsf_file w3 = Some n3"
    unfolding w3_def n3_def a3_def by (rule write_bank0 [OF act_w2 d_n3])
  define a4 where "a4 = n3\<lparr>nes_memory := (nes_memory n3)\<lparr>bank_regs := (bank_regs (nes_memory n3))[0 := 11]\<rparr>\<rparr>"
  have ok_a4: "io_ok (fp a4)"
    unfolding a4_def using ok_n3 by simp
  have v_a4: "cache_view (nes_memory a4) =
      ([Some 36864, Some 0, Some 4096, Some 8192, Some 12288, Some 16384, Some 20480, Some 24576],
       [10, 1, 2, 3, 4, 5, 6, 7], [1, 2, 3, 4, 5, 6, 7, 8, 9, 10],
       [1, 1, 1, 1, 1, 1, 1, 1, 1, 1],
       [10, 9, 8, 7, 6, 5, 4, 3, 2, 1])"
    unfolding a4_def using v_n3 by (simp add: cache_view_def)
  define n4 where "n4 = snd (nsf_load_rom_bank a4 0x5FF8 11)"
  have r_n4: "(0x5FF8::u16) \<le> 0x5FF8" "(0x5FF8::u16) \<le> 0x5FFF"
    by simp_all
  have c_n4: "find (\<lambda>i. ([1, 1, 1, 1, 1, 1, 1, 1, 1, 1]::u8 list) ! i \<noteq> 0 \<and> ([1, 2, 3, 4, 5, 6, 7, 8, 9, 10]::u8 list) ! i = 11) [0..<ROM_BANK_COUNT] = None"
    by (simp add: upt_10)
  have e_n4: "find (\<lambda>i. ([1, 1, 1, 1, 1, 1, 1, 1, 1, 1]::u8 list) ! i = 0) [0..<ROM_BANK_COUNT] = None"
    by (simp add: upt_10)
  have q_n4: "([10, 9, 8, 7, 6, 5, 4, 3, 2, 1]::int list) ! 9 \<noteq> - 1"
    by simp
  have s_n4: "find (\<lambda>i. uint (([1, 2, 3, 4, 5, 6, 7, 8, 9, 10]::u8 list) ! i) = ([10, 9, 8, 7, 6, 5, 4, 3, 2, 1]::int list) ! 9) [0..<ROM_BANK_COUNT] = Some 0"
    by (simp add: upt_10)
  have x_n4: "find (\<lambda>i. ([Some 36864, Some 0, Some 4096, Some 8192, Some 12288, Some 16384, Some 20480, Some 24576]::nat option list) ! i \<noteq> None \<and> uint (([10, 1, 2, 3, 4, 5, 6, 7]::u8 list) ! i) = int 0) [0..<8] = None"
    by (simp add: upt_8)
  have t_n4: "rom_bank_use_order (mark_rom_bank_used (zero_nes_memory\<lparr>rom_bank_use_order :=
      [10, 9, 8, 7, 6, 5, 4, 3, 2, 1][9 := - 1]\<rparr>) 11) =
      [11, 10, 9, 8, 7, 6, 5, 4, 3, 2]"
    using touch_new_bank [of "[10, 9, 8, 7, 6, 5, 4, 3, 2, 1][9 := - 1]" 11] by simp
  note st_n4 = load_step_evict [OF r_n4 ok_a4 v_a4 c_n4 e_n4 q_n4 s_n4 x_n4 t_n4]
  have ok_n4: "io_ok (fp n4)"
    unfolding n4_def by (rule st_n4(3))
  have v_n4: "cache_view (nes_memory n4) =
      ([Some 0, Some 0, Some 4096, Some 8192, Some 12288, Some 16384, Some 20480, Some 24576],
       [11, 1, 2, 3, 4, 5, 6, 7], [11, 2, 3, 4, 5, 6, 7, 8, 9, 10],
       [1, 1, 1, 1, 1, 1, 1, 1, 1, 1],
       [11, 10, 9, 8, 7, 6, 5, 4, 3, 2])"
    unfolding n4_def using st_n4(2) by simp
  have b_n4: "bank_regs (nes_memory n4) = [11, 0, 0, 0, 0, 0, 0, 0]"
    unfolding n4_def load_keeps_instance(2) a4_def using b_n3 by simp
  define w4 where "w4 = write6502 0x5FF8 11 w3"
  have d_n4: "bank_regs (nes_memory n3) ! 0 \<noteq> 11"
    unfolding b_n3 by simp
  have act_w4: "active_nsf_file w4 = Some n4"
    unfolding w4_def n4_def a4_def by (rule write_bank0 [OF act_w3 d_n4])
  have run3: "cpu_run [Bus_write 0x5FF8 8, Bus_write 0x5FF8 9, Bus_write 0x5FF8 10] w0 = w3"
    by (simp add: cpu_run_def w3_def w2_def w1_def)
  have run4: "cpu_run [Bus_write 0x5FF8 8, Bus_write 0x5FF8 9, Bus_write 0x5FF8 10,
          Bus_write 0x5FF8 11] w0 = w4"
    by (simp add: cpu_run_def w4_def w3_def w2_def w1_def)
  show ?thesis
    unfolding run3 run4 using act_w3 v_n3 act_w4 v_n4 by blast
qed


lemma replicate_8: "replicate 8 x = [x, x, x, x, x, x, x, x]"
  by (simp add: numeral_eq_Suc)

lemma replicate_10: "replicate 10 x = [x, x, x, x, x, x, x, x, x, x]"
  by (simp add: numeral_eq_Suc)

lemma banked_playback_init:
  "nsf_playback_init cpu_ops banked_opened_nsf 0 True =
     (ESP_OK, cpu_run cpu_ops \<lparr>active_nsf_file = Some banked_loaded_nsf, events = []\<rparr>)"
  "io_ok (fp banked_loaded_nsf)"
  "cache_view (nes_memory banked_loaded_nsf) =
          ([Some 0, Some 0, Some 4096, Some 8192, Some 12288, Some 16384, Some 20480, Some 24576],
           [1, 1, 2, 3, 4, 5, 6, 7], [1, 2, 3, 4, 5, 6, 7, 0, 0, 0],
           [1, 1, 1, 1, 1, 1, 1, 0, 0, 0],
           [7, 6, 5, 4, 3, 2, 1, - 1, - 1, - 1])"
  "bank_regs (nes_memory banked_loaded_nsf) = [0, 0, 0, 0, 0, 0, 0, 0]"
proof -
  let ?n1 = "nsf_init_nes_prg (nsf_init_nes_memory (banked_opened_nsf\<lparr>apu_write_cb := True\<rparr>)) 0 0"
  let ?nsf0 = "?n1\<lparr>nes_memory := (nes_memory ?n1)
          \<lparr>rom := replicate (ROM_BANK_SIZE * ROM_BANK_COUNT) 0,
           rom_bank_id := replicate ROM_BANK_COUNT 0,
           rom_bank_loaded := replicate ROM_BANK_COUNT 0,
           rom_bank_use_order := replicate ROM_BANK_COUNT (- 1),
           rom_block := replicate 8 None,
           rom_block_bank_id := replicate 8 0\<rparr>\<rparr>"
  have h: "header ?n1 = banked_header" and f: "fp ?n1 = banked_file"
    and b: "bank_regs (nes_memory ?n1) = replicate 8 0"
    by (simp_all add: nsf_init_nes_prg_def nsf_init_nes_memory_def banked_opened_nsf_def
        Let_def zero_nes_memory_def)
  have sw: "nsf_has_bank_switching ?n1"
    unfolding nsf_has_bank_switching_def h by (simp add: banked_header_def upt_8)
  have ok0: "io_ok (fp ?nsf0)"
    using f by (simp add: banked_file_def)
  have h0: "bankswitch_init (header ?nsf0) = [1, 1, 2, 3, 4, 5, 6, 7]"
    using h by (simp add: banked_header_def)
  have v0: "cache_view (nes_memory ?nsf0) =
      ([None, None, None, None, None, None, None, None],
       [0, 0, 0, 0, 0, 0, 0, 0], [0, 0, 0, 0, 0, 0, 0, 0, 0, 0],
       [0, 0, 0, 0, 0, 0, 0, 0, 0, 0],
       [- 1, - 1, - 1, - 1, - 1, - 1, - 1, - 1, - 1, - 1])"
    by (simp add: cache_view_def replicate_8 replicate_10)
  have b0: "bank_regs (nes_memory ?nsf0) = [0, 0, 0, 0, 0, 0, 0, 0]"
    using b by (simp add: replicate_8)
  note il = banked_initial_loads [OF ok0 h0 v0]
  have e: "nsf_init_load_nes_rom_banks ?n1 = load_initial_banks ?nsf0 [0..<8]"
    by (simp only: nsf_init_load_nes_rom_banks_def)
  have n0: "banked_loaded_nsf = snd (load_initial_banks ?nsf0 [0..<8])"
    unfolding banked_loaded_nsf_def e ..
  show "nsf_playback_init cpu_ops banked_opened_nsf 0 True =
     (ESP_OK, cpu_run cpu_ops \<lparr>active_nsf_file = Some banked_loaded_nsf, events = []\<rparr>)"
    unfolding nsf_playback_init_def Let_def n0 using sw e il(1) by (simp add: split_beta)
  show "io_ok (fp banked_loaded_nsf)"
    unfolding n0 by (rule il(3))
  show "cache_view (nes_memory banked_loaded_nsf) =
          ([Some 0, Some 0, Some 4096, Some 8192, Some 12288, Some 16384, Some 20480, Some 24576],
           [1, 1, 2, 3, 4, 5, 6, 7], [1, 2, 3, 4, 5, 6, 7, 0, 0, 0],
           [1, 1, 1, 1, 1, 1, 1, 0, 0, 0],
           [7, 6, 5, 4, 3, 2, 1, - 1, - 1, - 1])"
    unfolding n0 by (rule il(2))
  show "bank_regs (nes_memory banked_loaded_nsf) = [0, 0, 0, 0, 0, 0, 0, 0]"
    unfolding n0 il(5) by (rule b0)
qed

lemma view_fields:
  assumes "cache_view m = (blk, bbid, ids, ld, ord)"
  shows "rom_block m = blk" "rom_block_bank_id m = bbid" "rom_bank_id m = ids"
    "rom_bank_loaded m = ld" "rom_bank_use_order m = ord"
  using assms by (simp_all add: cache_view_def)

text \<open>
  Claim C1. The claim asks that after every bus operation each ROM block that is set
  points into a slot whose bank ID is the one recorded for the block, and that an
  eviction clears every block that still pointed at the evicted slot. The code does
  not do that. Play the bankswitched example, whose bank registers start at
  1, 1, 2, 3, 4, 5, 6, 7, and let the processor write 8, 9 and 10 to \<^verbatim>\<open>$5FF8\<close>: the cache
  is full and every block is consistent. A further write of 11 to \<^verbatim>\<open>$5FF8\<close> evicts
  bank 1 from slot 0; the clearing loop compares the recorded bank IDs with the slot
  index 0 and finds nothing to clear; the slot is reused for bank 11. Afterwards block 1
  still points at slot 0 and still records bank 1, while the slot holds bank 11.
\<close>

theorem eviction_leaves_stale_window:
  "\<exists>n n'.
     active_nsf_file (snd (nsf_playback_init
       [Bus_write 0x5FF8 8, Bus_write 0x5FF8 9, Bus_write 0x5FF8 10] banked_opened_nsf 0 True))
         = Some n \<and>
     cache_view (nes_memory n) = cache_view (nes_memory full_cache_nsf) \<and>
     window_consistent (nes_memory n) \<and>
     active_nsf_file (snd (nsf_playback_init
       [Bus_write 0x5FF8 8, Bus_write 0x5FF8 9, Bus_write 0x5FF8 10, Bus_write 0x5FF8 11]
       banked_opened_nsf 0 True)) = Some n' \<and>
     rom_block (nes_memory n') ! 1 = Some 0 \<and>
     rom_block_bank_id (nes_memory n') ! 1 = 1 \<and>
     rom_bank_id (nes_memory n') ! 0 = 11 \<and>
     \<not> window_consistent (nes_memory n')"
proof -
  let ?w0 = "\<lparr>active_nsf_file = Some banked_loaded_nsf, events = []\<rparr>"
  have act: "active_nsf_file ?w0 = Some banked_loaded_nsf"
    by simp
  obtain n3 n4 where
    a3: "active_nsf_file (cpu_run [Bus_write 0x5FF8 8, Bus_write 0x5FF8 9, Bus_write 0x5FF8 10] ?w0)
        = Some n3"
    and v3: "cache_view (nes_memory n3) =
      ([Some 36864, Some 0, Some 4096, Some 8192, Some 12288, Some 16384, Some 20480, Some 24576],
       [10, 1, 2, 3, 4, 5, 6, 7], [1, 2, 3, 4, 5, 6, 7, 8, 9, 10],
       [1, 1, 1, 1, 1, 1, 1, 1, 1, 1],
       [10, 9, 8, 7, 6, 5, 4, 3, 2, 1])"
    and a4: "active_nsf_file (cpu_run [Bus_write 0x5FF8 8, Bus_write 0x5FF8 9, Bus_write 0x5FF8 10,
          Bus_write 0x5FF8 11] ?w0) = Some n4"
    and v4: "cache_view (nes_memory n4) =
      ([Some 0, Some 0, Some 4096, Some 8192, Some 12288, Some 16384, Some 20480, Some 24576],
       [11, 1, 2, 3, 4, 5, 6, 7], [11, 2, 3, 4, 5, 6, 7, 8, 9, 10],
       [1, 1, 1, 1, 1, 1, 1, 1, 1, 1],
       [11, 10, 9, 8, 7, 6, 5, 4, 3, 2])"
    using banked_register_writes [OF act banked_playback_init(2,3,4)] by blast
  note f3 = view_fields [OF v3] and f4 = view_fields [OF v4]
  have full: "cache_view (nes_memory n3) = cache_view (nes_memory full_cache_nsf)"
    unfolding v3 by (simp add: cache_view_def full_cache_fields)
  have c3: "window_consistent (nes_memory n3)"
    by (simp add: window_consistent_def f3 upt_8)
  have c4: "\<not> window_consistent (nes_memory n4)"
    by (simp add: window_consistent_def f4 upt_8)
  have s4: "rom_block (nes_memory n4) ! 1 = Some 0" "rom_block_bank_id (nes_memory n4) ! 1 = 1"
    "rom_bank_id (nes_memory n4) ! 0 = 11"
    by (simp_all add: f4)
  show ?thesis
    unfolding banked_playback_init(1) using a3 a4 full c3 c4 s4 by auto
qed


subsection \<open>The cache invariants in every state that playback reaches\<close>

text \<open>
  The hypotheses of the eviction property are not an assumption about the caller: on a
  stream without I/O errors, \<^verbatim>\<open>nsf_playback_init\<close> of a bankswitched file establishes
  them, and every bus call of the core keeps them. The array sizes and the agreement of use
  list and slots hold throughout; every set window names a cached bank as long as a slot is
  still empty, which is what a read through a window needs before the cache is full.
\<close>

lemma all_minus_one: "list_all (\<lambda>b. b = x) xs \<Longrightarrow> xs = replicate (length xs) x"
  by (induction xs) simp_all

lemma lru_consistent_iff:
  "lru_consistent m \<longleftrightarrow>
     (\<exists>used k. rom_bank_use_order m = used @ replicate k (- 1) \<and> - 1 \<notin> set used \<and>
        distinct (cached_banks m) \<and> length used = length (cached_banks m) \<and>
        set used = set (cached_banks m))"
proof
  assume l: "lru_consistent m"
  let ?o = "rom_bank_use_order m"
  let ?u = "takeWhile (\<lambda>b. b \<noteq> - 1) ?o" and ?d = "dropWhile (\<lambda>b. b \<noteq> - 1) ?o"
  have "?d = replicate (length ?d) (- 1)"
    using l by (intro all_minus_one) (simp add: lru_consistent_def)
  then have "?o = ?u @ replicate (length ?d) (- 1)"
    by (metis takeWhile_dropWhile_id)
  moreover have "- 1 \<notin> set ?u"
    by (metis (mono_tags, lifting) set_takeWhileD)
  ultimately show "\<exists>used k. ?o = used @ replicate k (- 1) \<and> - 1 \<notin> set used \<and>
        distinct (cached_banks m) \<and> length used = length (cached_banks m) \<and>
        set used = set (cached_banks m)"
    using l unfolding lru_consistent_def by blast
next
  assume "\<exists>used k. rom_bank_use_order m = used @ replicate k (- 1) \<and> - 1 \<notin> set used \<and>
        distinct (cached_banks m) \<and> length used = length (cached_banks m) \<and>
        set used = set (cached_banks m)"
  then obtain used k where o: "rom_bank_use_order m = used @ replicate k (- 1)"
    and n: "- 1 \<notin> set used" and r: "distinct (cached_banks m)"
      "length used = length (cached_banks m)" "set used = set (cached_banks m)"
    by blast
  have a: "\<And>x. x \<in> set used \<Longrightarrow> x \<noteq> - 1" using n by auto
  have t: "takeWhile (\<lambda>b. b \<noteq> - 1) (used @ replicate k (- 1)) = used"
    using a by (simp add: takeWhile_append2 takeWhile_replicate)
  have d: "dropWhile (\<lambda>b. b \<noteq> - 1) (used @ replicate k (- 1)) = replicate k (- 1)"
    using a by (simp add: dropWhile_append2 dropWhile_replicate)
  show "lru_consistent m"
    unfolding lru_consistent_def o t d using r by (simp add: list_all_iff)
qed

lemma loaded_slots:
  "set (filter (\<lambda>i. ld ! i \<noteq> (0::u8)) [0..<ROM_BANK_COUNT]) = {i. i < ROM_BANK_COUNT \<and> ld ! i \<noteq> 0}"
  by auto

lemma cached_banks_set:
  "set (cached_banks m) =
     (\<lambda>i. uint (rom_bank_id m ! i)) ` {i. i < ROM_BANK_COUNT \<and> rom_bank_loaded m ! i \<noteq> 0}"
  unfolding cached_banks_def by (simp only: set_map loaded_slots)

lemma cached_banks_distinct:
  "distinct (cached_banks m) \<longleftrightarrow>
     inj_on (\<lambda>i. rom_bank_id m ! i) {i. i < ROM_BANK_COUNT \<and> rom_bank_loaded m ! i \<noteq> 0}"
proof -
  have "inj_on (\<lambda>i. uint (rom_bank_id m ! i)) {i. i < ROM_BANK_COUNT \<and> rom_bank_loaded m ! i \<noteq> 0}
      \<longleftrightarrow> inj_on (\<lambda>i. rom_bank_id m ! i) {i. i < ROM_BANK_COUNT \<and> rom_bank_loaded m ! i \<noteq> 0}"
    by (auto simp: inj_on_def simp flip: word_uint_eq_iff)
  then show ?thesis
    unfolding cached_banks_def by (simp only: distinct_map loaded_slots distinct_filter distinct_upt simp_thms)
qed

lemma cached_banks_length:
  "length (cached_banks m) = card {i. i < ROM_BANK_COUNT \<and> rom_bank_loaded m ! i \<noteq> 0}"
proof -
  have "length (cached_banks m) = length (filter (\<lambda>i. rom_bank_loaded m ! i \<noteq> 0) [0..<ROM_BANK_COUNT])"
    by (simp add: cached_banks_def)
  also have "\<dots> = card (set (filter (\<lambda>i. rom_bank_loaded m ! i \<noteq> 0) [0..<ROM_BANK_COUNT]))"
    by (rule distinct_card [symmetric]) simp
  finally show ?thesis by (simp only: loaded_slots)
qed


lemma shift_down_rotate:
  assumes i: "i < length xs"
  shows "(shift_down xs i)[0 := xs ! i] = xs ! i # take i xs @ drop (Suc i) xs"
proof (rule nth_equalityI)
  show "length ((shift_down xs i)[0 := xs ! i]) = length (xs ! i # take i xs @ drop (Suc i) xs)"
    using i by (simp add: shift_down_length)
next
  fix k
  assume "k < length ((shift_down xs i)[0 := xs ! i])"
  then have k: "k < length xs" by (simp add: shift_down_length)
  show "(shift_down xs i)[0 := xs ! i] ! k = (xs ! i # take i xs @ drop (Suc i) xs) ! k"
  proof (cases "k = 0")
    case True
    then show ?thesis using k by (simp add: shift_down_length)
  next
    case False
    then obtain k' where k': "k = Suc k'" by (cases k) auto
    have l: "(shift_down xs i)[0 := xs ! i] ! k = (if k \<le> i then xs ! k' else xs ! k)"
      using shift_down_nth [OF i k] k' by simp
    show ?thesis
    proof (cases "k \<le> i")
      case True
      then have "k' < i" using k' by simp
      then show ?thesis using l True k' i by (simp add: nth_append)
    next
      case False
      then have "\<not> k' < i" "Suc i + (k' - i) = k" using k' by simp_all
      then show ?thesis using l False k' i k by (simp add: nth_append min_def)
    qed
  qed
qed

lemma mark_used_keeps_cached: "cached_banks (mark_rom_bank_used m bank) = cached_banks m"
  by (subst mark_used_only_order) (simp add: cached_banks_def)

lemma mark_used_present:
  assumes len: "length (rom_bank_use_order m) = ROM_BANK_COUNT"
    and o: "rom_bank_use_order m = used @ replicate k (- 1)"
    and n: "- 1 \<notin> set used"
    and b: "uint bank \<in> set used"
  shows "\<exists>used'. rom_bank_use_order (mark_rom_bank_used m bank) = used' @ replicate k (- 1) \<and>
           set used' = set used \<and> length used' = length used"
proof (cases "rom_bank_use_order m ! 0 = uint bank")
  case True
  then have "rom_bank_use_order (mark_rom_bank_used m bank) = rom_bank_use_order m"
    by (simp add: mark_rom_bank_used_def Let_def)
  then show ?thesis using o by auto
next
  case False
  let ?o = "rom_bank_use_order m"
  obtain j where j: "j < length used" "used ! j = uint bank"
    using b by (auto simp: in_set_conv_nth)
  have oj: "?o ! j = uint bank" "j < ROM_BANK_COUNT"
    using j o len by (auto simp: nth_append)
  have j0: "j \<noteq> 0"
  proof
    assume "j = 0"
    with oj(1) False show False by simp
  qed
  have "find (\<lambda>i. ?o ! i = uint bank) [1..<ROM_BANK_COUNT] \<noteq> None"
    using oj j0 by (auto simp: find_None_iff)
  then obtain i where f: "find (\<lambda>i. ?o ! i = uint bank) [1..<ROM_BANK_COUNT] = Some i"
    by auto
  then have i: "i < ROM_BANK_COUNT" "?o ! i = uint bank"
    by (auto simp: find_Some_iff)
  have ne: "uint bank \<noteq> - 1" using b n by auto
  have iu: "i < length used"
  proof (rule ccontr)
    assume "\<not> i < length used"
    then have "?o ! i = - 1"
      using i(1) len unfolding o by (simp add: nth_append)
    then show False using i(2) ne by simp
  qed
  have il: "i < length ?o" using i len by simp
  have "rom_bank_use_order (mark_rom_bank_used m bank) = (shift_down ?o i)[0 := ?o ! i]"
    using False f i(2) by (simp add: mark_rom_bank_used_def Let_def)
  also have "\<dots> = ?o ! i # take i ?o @ drop (Suc i) ?o"
    by (rule shift_down_rotate [OF il])
  also have "\<dots> = (uint bank # take i used @ drop (Suc i) used) @ replicate k (- 1)"
    using iu i(2) unfolding o by simp
  finally have e: "rom_bank_use_order (mark_rom_bank_used m bank) =
      (uint bank # take i used @ drop (Suc i) used) @ replicate k (- 1)" .
  have ui: "used ! i = uint bank"
    using i(2) iu unfolding o by (simp add: nth_append)
  have "used = take i used @ used ! i # drop (Suc i) used"
    using iu by (rule id_take_nth_drop)
  then have "set used = set (take i used @ uint bank # drop (Suc i) used)"
    using ui by simp
  then have s: "set (uint bank # take i used @ drop (Suc i) used) = set used"
    by auto
  have l: "length (uint bank # take i used @ drop (Suc i) used) = length used"
    using iu by simp
  show ?thesis
    using e s l by blast
qed

lemma mark_used_absent_full:
  assumes len: "length (rom_bank_use_order m) = ROM_BANK_COUNT"
    and n: "- 1 \<notin> set (rom_bank_use_order m)"
    and b: "uint bank \<notin> set (rom_bank_use_order m)"
  shows "rom_bank_use_order (mark_rom_bank_used m bank) = rom_bank_use_order m"
proof -
  let ?o = "rom_bank_use_order m"
  have mem: "\<And>i. i < ROM_BANK_COUNT \<Longrightarrow> ?o ! i \<in> set ?o"
    using len by simp
  have "\<And>i. i < ROM_BANK_COUNT \<Longrightarrow> ?o ! i \<noteq> uint bank"
    using mem b by metis
  then have nf: "find (\<lambda>i. ?o ! i = uint bank) [1..<ROM_BANK_COUNT] = None"
    by (auto simp: find_None_iff)
  have "?o ! 9 \<noteq> - 1"
    using mem [of 9] n by auto
  moreover have "?o ! 0 \<noteq> uint bank"
    using mem [of 0] b by auto
  ultimately show ?thesis
    using nf by (simp add: mark_rom_bank_used_def Let_def)
qed


lemma cache_full_iff:
  "cache_full m \<longleftrightarrow> (\<forall>i. i < ROM_BANK_COUNT \<longrightarrow> rom_bank_loaded m ! i \<noteq> 0)"
  by (auto simp: cache_full_def list_all_iff)

lemma windows_cached_iff:
  "windows_cached m \<longleftrightarrow>
     (\<forall>i. i < 8 \<longrightarrow> rom_block m ! i = None \<or>
         uint (rom_block_bank_id m ! i) \<in> set (cached_banks m))"
  by (auto simp: windows_cached_def list_all_iff)

lemma full_cache_count:
  assumes "cache_full m"
  shows "length (cached_banks m) = ROM_BANK_COUNT"
proof -
  have "{i. i < ROM_BANK_COUNT \<and> rom_bank_loaded m ! i \<noteq> 0} = {..<ROM_BANK_COUNT}"
    using assms by (auto simp: cache_full_iff)
  then show ?thesis by (simp add: cached_banks_length)
qed

lemma mark_used_order_length:
  "length (rom_bank_use_order (mark_rom_bank_used m bank)) = length (rom_bank_use_order m)"
  by (simp add: mark_rom_bank_used_def Let_def shift_down_length split: option.splits)


lemma mark_used_same:
  "rom_block (mark_rom_bank_used m bank) = rom_block m"
  "rom_block_bank_id (mark_rom_bank_used m bank) = rom_block_bank_id m"
  "rom_bank_loaded (mark_rom_bank_used m bank) = rom_bank_loaded m"
  "rom_bank_id (mark_rom_bank_used m bank) = rom_bank_id m"
  "rom (mark_rom_bank_used m bank) = rom m"
  "ram (mark_rom_bank_used m bank) = ram m" "prg (mark_rom_bank_used m bank) = prg m"
  "apu_regs (mark_rom_bank_used m bank) = apu_regs m"
  "bank_regs (mark_rom_bank_used m bank) = bank_regs m"
  "int_vecs (mark_rom_bank_used m bank) = int_vecs m"
  by (simp_all add: mark_rom_bank_used_def Let_def split: option.splits)

lemma mark_used_invariant:
  assumes inv: "cache_invariant m"
    and b: "cache_full m \<or> uint bank \<in> set (cached_banks m)"
  shows "cache_invariant (mark_rom_bank_used m bank)"
proof -
  let ?m' = "mark_rom_bank_used m bank"
  have sizes: "nes_memory_sizes m" and lru: "lru_consistent m"
    and win: "cache_full m \<or> windows_cached m"
    using inv by (simp_all add: cache_invariant_def)
  have len: "length (rom_bank_use_order m) = ROM_BANK_COUNT"
    using sizes by (simp add: nes_memory_sizes_def)
  obtain used k where o: "rom_bank_use_order m = used @ replicate k (- 1)"
    and n: "- 1 \<notin> set used" and d: "distinct (cached_banks m)"
    and l: "length used = length (cached_banks m)" and s: "set used = set (cached_banks m)"
    using lru unfolding lru_consistent_iff by blast
  note same = mark_used_same [of m bank]
  have c: "cached_banks ?m' = cached_banks m"
    by (rule mark_used_keeps_cached)
  have "\<exists>used'. rom_bank_use_order ?m' = used' @ replicate k (- 1) \<and>
           set used' = set used \<and> length used' = length used"
  proof (cases "uint bank \<in> set used")
    case True
    then show ?thesis by (rule mark_used_present [OF len o n])
  next
    case False
    then have "cache_full m" using b s by simp
    then have "length used = ROM_BANK_COUNT" using l by (simp add: full_cache_count)
    then have k: "k = 0" using len o by simp
    then have "rom_bank_use_order ?m' = rom_bank_use_order m"
      using mark_used_absent_full [OF len] n False o by simp
    then show ?thesis using o by auto
  qed
  then obtain used' where o': "rom_bank_use_order ?m' = used' @ replicate k (- 1)"
    and s': "set used' = set used" and l': "length used' = length used"
    by blast
  have n': "- 1 \<notin> set used'" using n s' by simp
  have l2: "length used' = length (cached_banks m)" using l l' by simp
  have s2: "set used' = set (cached_banks m)" using s s' by simp
  have lru': "lru_consistent ?m'"
    unfolding lru_consistent_iff c
    by (intro exI [of _ used'] exI [of _ k] conjI o' n' d l2 s2)
  have sizes': "nes_memory_sizes ?m'"
    using sizes by (simp add: nes_memory_sizes_def same mark_used_order_length)
  have win': "cache_full ?m' \<or> windows_cached ?m'"
    using win by (simp add: cache_full_def windows_cached_def same c)
  show ?thesis
    using sizes' lru' win' by (simp add: cache_invariant_def)
qed


lemma nth_update_total:
  "xs[t := x] ! i = (if t = i \<and> t < length xs then x else xs ! i)"
  by (cases "t < length xs") (simp_all add: nth_list_update list_update_beyond)

lemma find_loaded_None:
  "find_loaded_bank m bank = None \<longleftrightarrow> uint bank \<notin> set (cached_banks m)"
  unfolding cached_banks_set find_loaded_bank_def
  by (auto simp: find_None_iff image_iff simp flip: word_uint_eq_iff)

lemma find_loaded_cached:
  "find_loaded_bank m bank = Some s \<Longrightarrow> uint bank \<in> set (cached_banks m)"
  using find_loaded_None [of m bank] by auto

lemma find_empty_Some:
  "find_empty_slot m = Some s \<Longrightarrow> s < ROM_BANK_COUNT \<and> rom_bank_loaded m ! s = 0"
  by (auto simp: find_empty_slot_def find_Some_iff)

lemma find_empty_None: "find_empty_slot m = None \<longleftrightarrow> cache_full m"
  by (auto simp: find_empty_slot_def find_None_iff cache_full_iff)

lemma sizes_transfer:
  assumes "nes_memory_sizes m" "same_fixed_regions m m'"
    "length (rom_block m') = 8" "length (rom_block_bank_id m') = 8"
    "length (rom_bank_id m') = ROM_BANK_COUNT" "length (rom_bank_loaded m') = ROM_BANK_COUNT"
    "length (rom_bank_use_order m') = ROM_BANK_COUNT"
  shows "nes_memory_sizes m'"
  using assms by (simp add: nes_memory_sizes_def same_fixed_regions_def)

lemma retarget_invariant:
  assumes inv: "cache_invariant m" and c: "uint bank \<in> set (cached_banks m)"
  shows "cache_invariant (m\<lparr>rom_block := (rom_block m)[t := p],
                            rom_block_bank_id := (rom_block_bank_id m)[t := bank]\<rparr>)"
proof -
  let ?m' = "m\<lparr>rom_block := (rom_block m)[t := p],
               rom_block_bank_id := (rom_block_bank_id m)[t := bank]\<rparr>"
  have sizes: "nes_memory_sizes m" and lru: "lru_consistent m"
    and win: "cache_full m \<or> windows_cached m"
    using inv by (simp_all add: cache_invariant_def)
  have cb: "cached_banks ?m' = cached_banks m"
    by (simp add: cached_banks_def)
  have l: "lru_consistent ?m'"
    using lru by (simp add: lru_consistent_def cb)
  have s: "nes_memory_sizes ?m'"
    using sizes by (simp add: nes_memory_sizes_def)
  have lb: "length (rom_block m) = 8" "length (rom_block_bank_id m) = 8"
    using sizes by (simp_all add: nes_memory_sizes_def)
  have w: "cache_full ?m' \<or> windows_cached ?m'"
  proof (cases "cache_full m")
    case True
    then show ?thesis by (simp add: cache_full_def)
  next
    case False
    then have "windows_cached m" using win by simp
    then have "windows_cached ?m'"
      unfolding windows_cached_iff cb using c lb by (simp add: nth_update_total)
    then show ?thesis by simp
  qed
  show ?thesis
    using s l w by (simp add: cache_invariant_def)
qed

lemma load_hit_invariant:
  assumes lo: "0x5FF8 \<le> reg" and hi: "reg \<le> 0x5FFF"
    and inv: "cache_invariant (nes_memory nsf)"
    and hit: "find_loaded_bank (nes_memory nsf) bank = Some s"
  shows "fst (nsf_load_rom_bank nsf reg bank) = ESP_OK"
    and "cache_invariant (nes_memory (snd (nsf_load_rom_bank nsf reg bank)))"
    and "fp (snd (nsf_load_rom_bank nsf reg bank)) = fp nsf"
proof -
  let ?t = "unat (reg - 0x5FF8)"
  let ?M' = "(nes_memory nsf)\<lparr>rom_block := (rom_block (nes_memory nsf))[?t := Some (s * 4096)],
                        rom_block_bank_id := (rom_block_bank_id (nes_memory nsf))[?t := bank]\<rparr>"
  have rng: "\<not> (reg < 0x5FF8 \<or> reg > 0x5FFF)"
    using lo hi by (simp add: not_less)
  have e: "nsf_load_rom_bank nsf reg bank =
      (ESP_OK, nsf\<lparr>nes_memory := mark_rom_bank_used ?M' bank\<rparr>)"
    using rng hit target_block(1) [OF lo hi] by (simp add: nsf_load_rom_bank_def Let_def)
  have c: "uint bank \<in> set (cached_banks (nes_memory nsf))"
    using hit by (rule find_loaded_cached)
  have i: "cache_invariant ?M'"
    using inv c by (rule retarget_invariant)
  have c': "uint bank \<in> set (cached_banks ?M')"
    using c by (simp add: cached_banks_def)
  have "cache_invariant (mark_rom_bank_used ?M' bank)"
    using i c' by (intro mark_used_invariant) simp_all
  then show "cache_invariant (nes_memory (snd (nsf_load_rom_bank nsf reg bank)))"
    unfolding e by simp
  show "fst (nsf_load_rom_bank nsf reg bank) = ESP_OK"
    unfolding e by simp
  show "fp (snd (nsf_load_rom_bank nsf reg bank)) = fp nsf"
    unfolding e by simp
qed

lemma lru_shape_not_full:
  assumes lo: "length (rom_bank_use_order m) = ROM_BANK_COUNT"
    and lru: "lru_consistent m"
    and s: "s < ROM_BANK_COUNT" and e: "rom_bank_loaded m ! s = 0"
  shows "\<exists>used k. rom_bank_use_order m = (used @ replicate k (- 1)) @ [- 1] \<and> - 1 \<notin> set used \<and>
        distinct (cached_banks m) \<and> length used = length (cached_banks m) \<and>
        set used = set (cached_banks m)"
proof -
  let ?L = "{i. i < ROM_BANK_COUNT \<and> rom_bank_loaded m ! i \<noteq> 0}"
  obtain used k where o: "rom_bank_use_order m = used @ replicate k (- 1)"
    and n: "- 1 \<notin> set used" and d: "distinct (cached_banks m)"
    and l: "length used = length (cached_banks m)" and u: "set used = set (cached_banks m)"
    using lru unfolding lru_consistent_iff by blast
  have "?L \<subseteq> {..<ROM_BANK_COUNT} - {s}"
    using e by auto
  then have "card ?L \<le> card ({..<ROM_BANK_COUNT} - {s})"
    by (intro card_mono) simp_all
  also have "\<dots> = 9" using s by simp
  finally have "length used \<le> 9"
    using l by (simp add: cached_banks_length)
  moreover have "length used + k = ROM_BANK_COUNT"
    using lo unfolding o by simp
  ultimately obtain k' where k': "k = Suc k'"
    by (cases k) simp_all
  have "replicate k (- 1 :: int) = replicate k' (- 1) @ [- 1]"
    unfolding k' by (simp add: replicate_append_same)
  then have "rom_bank_use_order m = (used @ replicate k' (- 1)) @ [- 1]"
    using o by simp
  then show ?thesis
    using n d l u by blast
qed

lemma fill_empty_slot:
  assumes li: "length (rom_bank_id m) = ROM_BANK_COUNT"
    and ll: "length (rom_bank_loaded m) = ROM_BANK_COUNT"
    and lo: "length (rom_bank_use_order m) = ROM_BANK_COUNT"
    and lru: "lru_consistent m"
    and s: "s < ROM_BANK_COUNT" and e: "rom_bank_loaded m ! s = 0"
    and miss: "uint bank \<notin> set (cached_banks m)"
    and ids': "rom_bank_id m' = (rom_bank_id m)[s := bank]"
    and ld': "rom_bank_loaded m' = (rom_bank_loaded m)[s := 1]"
    and ord': "rom_bank_use_order m' = uint bank # butlast (rom_bank_use_order m)"
  shows "lru_consistent m'"
    and "set (cached_banks m') = insert (uint bank) (set (cached_banks m))"
proof -
  let ?L = "{i. i < ROM_BANK_COUNT \<and> rom_bank_loaded m ! i \<noteq> 0}"
  let ?L' = "{i. i < ROM_BANK_COUNT \<and> rom_bank_loaded m' ! i \<noteq> 0}"
  obtain used k where o: "rom_bank_use_order m = (used @ replicate k (- 1)) @ [- 1]"
    and n: "- 1 \<notin> set used" and d: "distinct (cached_banks m)"
    and l: "length used = length (cached_banks m)" and u: "set used = set (cached_banks m)"
    using lru_shape_not_full [OF lo lru s e] by blast
  have L': "?L' = insert s ?L"
    using s ll by (auto simp: ld' nth_list_update)
  have sL: "s \<notin> ?L" using e by simp
  have same: "\<And>i. i \<in> ?L \<Longrightarrow> rom_bank_id m' ! i = rom_bank_id m ! i"
    using e by (auto simp: ids' nth_update_total)
  have new: "rom_bank_id m' ! s = bank"
    using s li by (simp add: ids')
  have notin: "\<And>i. i \<in> ?L \<Longrightarrow> rom_bank_id m ! i \<noteq> bank"
    using miss unfolding cached_banks_set by auto
  have img: "(\<lambda>i. uint (rom_bank_id m' ! i)) ` ?L = (\<lambda>i. uint (rom_bank_id m ! i)) ` ?L"
    by (rule image_cong) (simp_all add: same)
  show set': "set (cached_banks m') = insert (uint bank) (set (cached_banks m))"
    unfolding cached_banks_set L' by (simp only: image_insert new img)
  have card: "length (cached_banks m') = Suc (length (cached_banks m))"
    unfolding cached_banks_length L' using sL by simp
  have inj: "inj_on (\<lambda>i. rom_bank_id m ! i) ?L"
    using d by (simp only: cached_banks_distinct)
  have inj': "inj_on (\<lambda>i. rom_bank_id m' ! i) ?L"
    using inj same by (simp add: inj_on_def)
  have fresh: "rom_bank_id m' ! s \<notin> (\<lambda>i. rom_bank_id m' ! i) ` (?L - {s})"
  proof
    assume "rom_bank_id m' ! s \<in> (\<lambda>i. rom_bank_id m' ! i) ` (?L - {s})"
    then obtain i where i: "i \<in> ?L" "rom_bank_id m' ! s = rom_bank_id m' ! i"
      by blast
    then have "rom_bank_id m ! i = bank"
      using same [OF i(1)] new by simp
    then show False
      using notin [OF i(1)] by simp
  qed
  have d': "distinct (cached_banks m')"
    unfolding cached_banks_distinct L' by (simp only: inj_on_insert inj' fresh simp_thms)
  have o': "rom_bank_use_order m' = (uint bank # used) @ replicate k (- 1)"
    unfolding ord' o by (simp only: butlast_snoc append_Cons)
  have "0 \<le> uint bank" by simp
  then have "uint bank \<noteq> - 1" by arith
  then have n': "- 1 \<notin> set (uint bank # used)"
    using n by auto
  have l': "length (uint bank # used) = length (cached_banks m')"
    using l card by simp
  have u': "set (uint bank # used) = set (cached_banks m')"
    using u set' by simp
  show "lru_consistent m'"
    unfolding lru_consistent_iff
    by (intro exI [of _ "uint bank # used"] exI [of _ k] conjI o' n' d' l' u')
qed

lemma windows_after_load:
  assumes lb: "length (rom_block m) = 8" "length (rom_block_bank_id m) = 8"
    and win: "windows_cached m"
    and blk: "rom_block m' = (rom_block m)[t := p]"
    and bbid: "rom_block_bank_id m' = (rom_block_bank_id m)[t := bank]"
    and c: "set (cached_banks m') = insert (uint bank) (set (cached_banks m))"
  shows "windows_cached m'"
  using win lb unfolding windows_cached_iff blk bbid c by (auto simp: nth_update_total)


lemma load_empty_invariant:
  assumes lo: "0x5FF8 \<le> reg" and hi: "reg \<le> 0x5FFF"
    and ok: "io_ok (fp nsf)"
    and inv: "cache_invariant (nes_memory nsf)"
    and miss: "find_loaded_bank (nes_memory nsf) bank = None"
    and empty: "find_empty_slot (nes_memory nsf) = Some s"
  shows "fst (nsf_load_rom_bank nsf reg bank) = ESP_OK"
    and "cache_invariant (nes_memory (snd (nsf_load_rom_bank nsf reg bank)))"
    and "io_ok (fp (snd (nsf_load_rom_bank nsf reg bank)))"
proof -
  let ?m = "nes_memory nsf" and ?t = "unat (reg - 0x5FF8)"
  let ?r = "nes_memory (snd (nsf_load_rom_bank nsf reg bank))"
  have sizes: "nes_memory_sizes ?m" and lru: "lru_consistent ?m"
    and win: "cache_full ?m \<or> windows_cached ?m"
    using inv by (simp_all add: cache_invariant_def)
  have lb: "length (rom_block ?m) = 8" "length (rom_block_bank_id ?m) = 8"
    and li: "length (rom_bank_id ?m) = ROM_BANK_COUNT"
    and ll: "length (rom_bank_loaded ?m) = ROM_BANK_COUNT"
    and lo': "length (rom_bank_use_order ?m) = ROM_BANK_COUNT"
    using sizes by (simp_all add: nes_memory_sizes_def)
  have s: "s < ROM_BANK_COUNT" and e: "rom_bank_loaded ?m ! s = 0"
    using find_empty_Some [OF empty] by simp_all
  have "\<not> cache_full ?m"
    using s e by (auto simp: cache_full_iff)
  then have wc: "windows_cached ?m" using win by simp
  have nc: "uint bank \<notin> set (cached_banks ?m)"
    using miss by (simp add: find_loaded_None)
  have slot: "(case find_empty_slot ?m of
                  Some k \<Rightarrow> Inr (k, ?m)
                | None \<Rightarrow> evict_oldest_bank ?m) = Inr (s, ?m)"
    by (simp add: empty)
  note r = load_rom_bank_miss [OF lo hi ok miss slot]
  have "\<exists>R. ?r = commit_bank (?m\<lparr>rom := R, rom_bank_loaded := (rom_bank_loaded ?m)[s := 0]\<rparr>)
                    s ?t bank"
    by (rule exI, rule r(2))
  then obtain R where R: "?r = commit_bank
        (?m\<lparr>rom := R, rom_bank_loaded := (rom_bank_loaded ?m)[s := 0]\<rparr>) s ?t bank"
    by blast
  let ?M = "?m\<lparr>rom := R, rom_bank_loaded := (rom_bank_loaded ?m)[s := 0]\<rparr>"
  obtain used k where o: "rom_bank_use_order ?m = (used @ replicate k (- 1)) @ [- 1]"
    and u: "set used = set (cached_banks ?m)"
    using lru_shape_not_full [OF lo' lru s e] by blast
  have "length (used @ replicate k (- 1)) = 9"
    using lo' unfolding o by simp
  then have tail: "rom_bank_use_order ?m ! 9 = - 1"
    unfolding o by (metis nth_append_length)
  have "0 \<le> uint bank" by simp
  then have "uint bank \<noteq> - 1" by arith
  then have new: "uint bank \<notin> set (rom_bank_use_order ?m)"
    using nc u unfolding o by auto
  have f1: "rom_block ?r = (rom_block ?m)[?t := Some (s * 4096)]"
    and f2: "rom_block_bank_id ?r = (rom_block_bank_id ?m)[?t := bank]"
    and f3: "rom_bank_id ?r = (rom_bank_id ?m)[s := bank]"
    and f4: "rom_bank_loaded ?r = (rom_bank_loaded ?m)[s := 1]"
    unfolding R by (simp_all add: commit_bank_fields)
  have f5: "rom_bank_use_order ?r = uint bank # butlast (rom_bank_use_order ?m)"
    unfolding R using commit_bank_order [of ?M bank s ?t] lo' new tail by simp
  note fe = fill_empty_slot [OF li ll lo' lru s e nc f3 f4 f5]
  have w': "windows_cached ?r"
    using lb wc f1 f2 fe(2) by (rule windows_after_load)
  have fx: "same_fixed_regions ?m ?r"
    using load_rom_bank_fixed [of nsf reg bank] by simp
  have s': "nes_memory_sizes ?r"
    using sizes fx by (rule sizes_transfer) (simp_all add: f1 f2 f3 f4 f5 lb li ll lo')
  show "cache_invariant ?r"
    using s' fe(1) w' by (simp add: cache_invariant_def)
  show "fst (nsf_load_rom_bank nsf reg bank) = ESP_OK" by (rule r(1))
  show "io_ok (fp (snd (nsf_load_rom_bank nsf reg bank)))" by (rule r(4))
qed

lemma full_cached_banks:
  assumes li: "length (rom_bank_id m) = ROM_BANK_COUNT" and full: "cache_full m"
  shows "cached_banks m = map uint (rom_bank_id m)"
proof -
  have all: "\<And>i. i < ROM_BANK_COUNT \<Longrightarrow> rom_bank_loaded m ! i \<noteq> 0"
    using full by (simp add: cache_full_def list_all_iff)
  then have flt: "filter (\<lambda>i. rom_bank_loaded m ! i \<noteq> 0) [0..<ROM_BANK_COUNT] = [0..<ROM_BANK_COUNT]"
    by (simp add: filter_id_conv)
  have "map (\<lambda>i. rom_bank_id m ! i) [0..<ROM_BANK_COUNT] = rom_bank_id m"
    using map_nth [of "rom_bank_id m"] li by simp
  then have "map uint (rom_bank_id m) = map (\<lambda>i. uint (rom_bank_id m ! i)) [0..<ROM_BANK_COUNT]"
    by (metis (no_types, lifting) map_map comp_def map_eq_conv)
  then show ?thesis
    unfolding cached_banks_def flt by simp
qed

lemma full_lru_intro:
  assumes li: "length (rom_bank_id m) = ROM_BANK_COUNT"
    and lo: "length (rom_bank_use_order m) = ROM_BANK_COUNT"
    and full: "cache_full m"
    and d: "distinct (rom_bank_id m)"
    and u: "set (rom_bank_use_order m) = uint ` set (rom_bank_id m)"
  shows "lru_consistent m"
proof -
  have cb: "cached_banks m = map uint (rom_bank_id m)"
    using li full by (rule full_cached_banks)
  have nn: "\<And>x :: u8. uint x \<noteq> - 1"
  proof -
    fix x :: u8
    have "0 \<le> uint x" by simp
    then show "uint x \<noteq> - 1" by arith
  qed
  have o: "rom_bank_use_order m = rom_bank_use_order m @ replicate 0 (- 1)" by simp
  have n: "- 1 \<notin> set (rom_bank_use_order m)"
  proof
    assume "- 1 \<in> set (rom_bank_use_order m)"
    then have "- 1 \<in> uint ` set (rom_bank_id m)"
      unfolding u .
    then obtain x :: u8 where "- 1 = uint x"
      by (rule imageE)
    then show False using nn [of x] by simp
  qed
  have d': "distinct (cached_banks m)"
    unfolding cb using d by (simp add: distinct_map inj_on_def flip: word_uint_eq_iff)
  have l: "length (rom_bank_use_order m) = length (cached_banks m)"
    unfolding cb using li lo by simp
  have s: "set (rom_bank_use_order m) = set (cached_banks m)"
    unfolding cb u by simp
  show ?thesis
    unfolding lru_consistent_iff
    by (intro exI [of _ "rom_bank_use_order m"] exI [of _ 0] conjI o n d' l s)
qed

lemma replace_oldest_slot:
  assumes sizes: "nes_memory_sizes m" and full: "cache_full m" and lru: "lru_consistent m"
    and s: "s < ROM_BANK_COUNT"
    and old: "uint (rom_bank_id m ! s) = rom_bank_use_order m ! 9"
    and miss: "uint bank \<notin> set (cached_banks m)"
    and ids': "rom_bank_id m' = (rom_bank_id m)[s := bank]"
    and ld': "rom_bank_loaded m' = (rom_bank_loaded m)[s := 1]"
    and ord': "rom_bank_use_order m' = uint bank # butlast (rom_bank_use_order m)"
  shows "lru_consistent m'" and "cache_full m'"
proof -
  let ?o = "rom_bank_use_order m" and ?ids = "rom_bank_id m"
  note f = full_cache_facts [OF sizes full lru]
  have li: "length ?ids = ROM_BANK_COUNT" and lo: "length ?o = ROM_BANK_COUNT"
    and ll: "length (rom_bank_loaded m) = ROM_BANK_COUNT"
    using sizes by (simp_all add: nes_memory_sizes_def)
  have cb: "cached_banks m = map uint ?ids"
    using li full by (rule full_cached_banks)
  have nb: "bank \<notin> set ?ids"
    using miss unfolding cb by auto
  show full': "cache_full m'"
    using full ll unfolding cache_full_iff ld' by (simp add: nth_update_total)
  have li': "length (rom_bank_id m') = ROM_BANK_COUNT"
    using li by (simp add: ids')
  have lo': "length (rom_bank_use_order m') = ROM_BANK_COUNT"
    using lo by (simp add: ord')
  have d': "distinct (rom_bank_id m')"
    unfolding ids' using f(1) nb by (intro distinct_list_update) simp_all
  have si: "set (rom_bank_id m') = insert bank (set ?ids - {?ids ! s})"
    unfolding ids' using f(1) s li by (intro set_update_distinct) simp_all
  have ne: "?o \<noteq> []" using lo by auto
  have "last ?o = ?o ! 9"
    using lo ne by (simp add: last_conv_nth)
  then have sp: "?o = butlast ?o @ [?o ! 9]"
    using ne by (metis append_butlast_last_id)
  have "distinct (butlast ?o @ [?o ! 9])"
    using f(2) sp by simp
  then have nl: "?o ! 9 \<notin> set (butlast ?o)" by simp
  have "set ?o = insert (?o ! 9) (set (butlast ?o))"
    using sp by (metis list.set(2) rotate1.simps(2) set_rotate1)
  then have sb: "set (butlast ?o) = set ?o - {?o ! 9}"
    using nl by auto
  have im: "uint ` (set ?ids - {?ids ! s}) = uint ` set ?ids - {uint (?ids ! s)}"
    by (auto simp flip: word_uint_eq_iff)
  have u': "set (rom_bank_use_order m') = uint ` set (rom_bank_id m')"
    unfolding ord' si by (simp add: sb f(3) im old)
  show "lru_consistent m'"
    using li' lo' full' d' u' by (rule full_lru_intro)
qed

lemma load_evict_invariant:
  assumes lo: "0x5FF8 \<le> reg" and hi: "reg \<le> 0x5FFF"
    and ok: "io_ok (fp nsf)"
    and inv: "cache_invariant (nes_memory nsf)"
    and miss: "find_loaded_bank (nes_memory nsf) bank = None"
    and full: "cache_full (nes_memory nsf)"
  shows "fst (nsf_load_rom_bank nsf reg bank) = ESP_OK"
    and "cache_invariant (nes_memory (snd (nsf_load_rom_bank nsf reg bank)))"
    and "io_ok (fp (snd (nsf_load_rom_bank nsf reg bank)))"
proof -
  let ?m = "nes_memory nsf" and ?t = "unat (reg - 0x5FF8)"
  let ?r = "nes_memory (snd (nsf_load_rom_bank nsf reg bank))"
  have sizes: "nes_memory_sizes ?m" and lru: "lru_consistent ?m"
    using inv by (simp_all add: cache_invariant_def)
  have lb: "length (rom_block ?m) = 8" "length (rom_block_bank_id ?m) = 8"
    and li: "length (rom_bank_id ?m) = ROM_BANK_COUNT"
    and ll: "length (rom_bank_loaded ?m) = ROM_BANK_COUNT"
    and lo': "length (rom_bank_use_order ?m) = ROM_BANK_COUNT"
    using sizes by (simp_all add: nes_memory_sizes_def)
  obtain s m1 where s: "s < ROM_BANK_COUNT"
    and old: "uint (rom_bank_id ?m ! s) = rom_bank_use_order ?m ! 9"
    and ev: "evict_oldest_bank ?m = Inr (s, m1)"
    and ret: "fst (nsf_load_rom_bank nsf reg bank) = ESP_OK"
    and f3: "rom_bank_id ?r = (rom_bank_id ?m)[s := bank]"
    and f4: "rom_bank_loaded ?r = (rom_bank_loaded ?m)[s := 1]"
    and f5: "rom_bank_use_order ?r = uint bank # butlast (rom_bank_use_order ?m)"
    using evict_and_load [OF lo hi sizes ok full lru miss] by blast
  have fe: "find_empty_slot ?m = None"
    using full by (simp add: find_empty_None)
  have slot: "(case find_empty_slot ?m of
                  Some k \<Rightarrow> Inr (k, ?m)
                | None \<Rightarrow> evict_oldest_bank ?m) = Inr (s, m1)"
    by (simp add: fe ev)
  note r = load_rom_bank_miss [OF lo hi ok miss slot]
  note m1 = evict_result(5) [OF ev]
  have lb1: "length (rom_block m1) = 8" "length (rom_block_bank_id m1) = 8"
    by (subst m1, simp add: clear_reference_keeps lb)+
  have l1: "length (rom_block ?r) = 8" and l2: "length (rom_block_bank_id ?r) = 8"
    by (simp_all add: r(2) commit_bank_fields lb1)
  have nc: "uint bank \<notin> set (cached_banks ?m)"
    using miss by (simp add: find_loaded_None)
  note rp = replace_oldest_slot [OF sizes full lru s old nc f3 f4 f5]
  have fx: "same_fixed_regions ?m ?r"
    using load_rom_bank_fixed [of nsf reg bank] by simp
  have s': "nes_memory_sizes ?r"
    using sizes fx l1 l2 by (rule sizes_transfer) (simp_all add: f3 f4 f5 li ll lo')
  show "cache_invariant ?r"
    using s' rp by (simp add: cache_invariant_def)
  show "fst (nsf_load_rom_bank nsf reg bank) = ESP_OK" by (rule ret)
  show "io_ok (fp (snd (nsf_load_rom_bank nsf reg bank)))" by (rule r(4))
qed

lemma load_rom_bank_invariant:
  assumes lo: "0x5FF8 \<le> reg" and hi: "reg \<le> 0x5FFF"
    and ok: "io_ok (fp nsf)"
    and inv: "cache_invariant (nes_memory nsf)"
  shows "fst (nsf_load_rom_bank nsf reg bank) = ESP_OK \<and>
         cache_invariant (nes_memory (snd (nsf_load_rom_bank nsf reg bank))) \<and>
         io_ok (fp (snd (nsf_load_rom_bank nsf reg bank)))"
proof (cases "find_loaded_bank (nes_memory nsf) bank")
  case (Some s)
  show ?thesis
    using load_hit_invariant [OF lo hi inv Some] ok by simp
next
  case None
  show ?thesis
  proof (cases "find_empty_slot (nes_memory nsf)")
    case (Some s)
    show ?thesis
      using load_empty_invariant [OF lo hi ok inv None Some] by simp
  next
    case n: None
    then have "cache_full (nes_memory nsf)" by (simp add: find_empty_None)
    then show ?thesis
      using load_evict_invariant [OF lo hi ok inv None] by simp
  qed
qed


lemma block_index_bound:
  fixes a :: u16
  assumes a: "0x8000 \<le> a"
  shows "unat (ucast (drop_bit 12 (a AND 0x7000)) :: u8) < 8"
proof -
  have "unat a < 65536"
    using unsigned_less [of a, where 'a = nat] by simp
  then have "unat a div 4096 < 16"
    by (simp add: less_mult_imp_div_less)
  then show ?thesis
    unfolding rom_address_decode(2) [OF a] by simp
qed

lemma region_write_invariant:
  assumes "cache_invariant m"
  shows "cache_invariant (m\<lparr>ram := (ram m)[i := v]\<rparr>)"
    and "cache_invariant (m\<lparr>apu_regs := (apu_regs m)[i := v]\<rparr>)"
    and "cache_invariant (m\<lparr>bank_regs := (bank_regs m)[i := v]\<rparr>)"
  using assms
  by (simp_all add: cache_invariant_def nes_memory_sizes_def lru_consistent_def
      cached_banks_def cache_full_def windows_cached_def)

lemma read6502_invariant:
  assumes act: "active_nsf_file w = Some n"
    and inv: "cache_invariant (nes_memory n)" and ok: "io_ok (fp n)"
  shows "\<exists>n'. active_nsf_file (snd (read6502 a w)) = Some n' \<and>
           cache_invariant (nes_memory n') \<and> io_ok (fp n')"
proof -
  let ?m = "nes_memory n"
  let ?i = "unat (ucast (drop_bit 12 (a AND 0x7000)) :: u8)"
  have "snd (read6502 a w) = w \<or>
        (0x8000 \<le> a \<and> rom_block ?m ! ?i \<noteq> None \<and>
         snd (read6502 a w) = w\<lparr>active_nsf_file := Some (n\<lparr>nes_memory :=
             mark_rom_bank_used ?m (rom_block_bank_id ?m ! ?i)\<rparr>)\<rparr>)"
    using act by (auto simp: read6502_def Let_def split: option.splits)
  then show ?thesis
  proof
    assume "snd (read6502 a w) = w"
    then show ?thesis using act inv ok by simp
  next
    assume r: "0x8000 \<le> a \<and> rom_block ?m ! ?i \<noteq> None \<and>
         snd (read6502 a w) = w\<lparr>active_nsf_file := Some (n\<lparr>nes_memory :=
             mark_rom_bank_used ?m (rom_block_bank_id ?m ! ?i)\<rparr>)\<rparr>"
    then have "0x8000 \<le> a" by (rule conjunct1)
    then have i: "?i < 8" by (rule block_index_bound)
    have win: "cache_full ?m \<or> windows_cached ?m"
      using inv by (simp add: cache_invariant_def)
    have set: "rom_block ?m ! ?i \<noteq> None" using r by (rule conjunct2 [THEN conjunct1])
    have e: "snd (read6502 a w) = w\<lparr>active_nsf_file := Some (n\<lparr>nes_memory :=
             mark_rom_bank_used ?m (rom_block_bank_id ?m ! ?i)\<rparr>)\<rparr>"
      using r by (rule conjunct2 [THEN conjunct2])
    have "cache_full ?m \<or> uint (rom_block_bank_id ?m ! ?i) \<in> set (cached_banks ?m)"
    proof (cases "cache_full ?m")
      case True
      then show ?thesis by (rule disjI1)
    next
      case False
      then have wc: "windows_cached ?m" using win by simp
      have "rom_block ?m ! ?i = None \<or>
            uint (rom_block_bank_id ?m ! ?i) \<in> set (cached_banks ?m)"
        using wc [unfolded windows_cached_iff, rule_format, OF i] .
      then show ?thesis
      proof
        assume "rom_block ?m ! ?i = None"
        with set show ?thesis by (rule notE)
      next
        assume "uint (rom_block_bank_id ?m ! ?i) \<in> set (cached_banks ?m)"
        then show ?thesis by (rule disjI2)
      qed
    qed
    with inv have c: "cache_invariant (mark_rom_bank_used ?m (rom_block_bank_id ?m ! ?i))"
      by (rule mark_used_invariant)
    show ?thesis unfolding e using c ok by simp
  qed
qed

lemma write6502_invariant:
  assumes act: "active_nsf_file w = Some n"
    and inv: "cache_invariant (nes_memory n)" and ok: "io_ok (fp n)"
  shows "\<exists>n'. active_nsf_file (write6502 a v w) = Some n' \<and>
           cache_invariant (nes_memory n') \<and> io_ok (fp n')"
proof -
  let ?m = "nes_memory n"
  let ?n1 = "n\<lparr>nes_memory := ?m\<lparr>bank_regs := (bank_regs ?m)[unat (a - 0x5FF8) := v]\<rparr>\<rparr>"
  have "active_nsf_file (write6502 a v w) = Some n \<or>
        active_nsf_file (write6502 a v w) =
          Some (n\<lparr>nes_memory := ?m\<lparr>ram := (ram ?m)[unat a := v]\<rparr>\<rparr>) \<or>
        active_nsf_file (write6502 a v w) =
          Some (n\<lparr>nes_memory := ?m\<lparr>apu_regs := (apu_regs ?m)[unat (a - 0x4000) := v]\<rparr>\<rparr>) \<or>
        (0x5FF8 \<le> a \<and> a \<le> 0x5FFF \<and>
         active_nsf_file (write6502 a v w) = Some (snd (nsf_load_rom_bank ?n1 a v)))"
    using act by (simp add: write6502_def Let_def)
  moreover have "cache_invariant (nes_memory ?n1)" "io_ok (fp ?n1)"
    using inv ok by (simp_all add: region_write_invariant)
  ultimately show ?thesis
    using inv ok region_write_invariant [OF inv] load_rom_bank_invariant [of a ?n1 v]
    by (elim disjE conjE) simp_all
qed

lemma bus_step_invariant:
  assumes "active_nsf_file w = Some n" "cache_invariant (nes_memory n)" "io_ok (fp n)"
  shows "\<exists>n'. active_nsf_file (bus_step w op) = Some n' \<and>
           cache_invariant (nes_memory n') \<and> io_ok (fp n')"
  using assms by (cases op) (simp_all add: read6502_invariant write6502_invariant)

lemma cpu_run_invariant:
  assumes "active_nsf_file w = Some n" "cache_invariant (nes_memory n)" "io_ok (fp n)"
  shows "\<exists>n'. active_nsf_file (cpu_run ops w) = Some n' \<and>
           cache_invariant (nes_memory n') \<and> io_ok (fp n')"
  using assms
proof (induction ops arbitrary: w n)
  case Nil
  then show ?case by (simp add: cpu_run_def)
next
  case (Cons op ops)
  obtain n1 where n1: "active_nsf_file (bus_step w op) = Some n1"
      "cache_invariant (nes_memory n1)" "io_ok (fp n1)"
    using bus_step_invariant [OF Cons.prems] by blast
  show ?case
    using Cons.IH [OF n1] by (simp add: cpu_run_def)
qed

lemma fresh_cache_invariant:
  assumes "nes_memory_sizes m"
  shows "cache_invariant (m\<lparr>rom := R,
           rom_bank_id := replicate ROM_BANK_COUNT 0,
           rom_bank_loaded := replicate ROM_BANK_COUNT 0,
           rom_bank_use_order := replicate ROM_BANK_COUNT (- 1),
           rom_block := replicate 8 None,
           rom_block_bank_id := replicate 8 0\<rparr>)"
proof -
  let ?m = "m\<lparr>rom := R,
           rom_bank_id := replicate ROM_BANK_COUNT 0,
           rom_bank_loaded := replicate ROM_BANK_COUNT 0,
           rom_bank_use_order := replicate ROM_BANK_COUNT (- 1),
           rom_block := replicate 8 None,
           rom_block_bank_id := replicate 8 0\<rparr>"
  have s: "nes_memory_sizes ?m"
    using assms by (simp add: nes_memory_sizes_def)
  have c: "cached_banks ?m = []"
    by (simp add: cached_banks_def filter_empty_conv)
  have l: "lru_consistent ?m"
    unfolding lru_consistent_def c by (simp add: list_all_iff)
  have w: "windows_cached ?m"
    unfolding windows_cached_iff by simp
  show ?thesis
    using s l w by (simp add: cache_invariant_def)
qed

lemma init_sizes:
  "nes_memory_sizes (nes_memory (nsf_init_nes_prg (nsf_init_nes_memory nsf) song p))"
  by (simp add: nsf_init_nes_prg_def nsf_init_nes_memory_def zero_nes_memory_def
      nes_memory_sizes_def Let_def)

lemma init_reg_range:
  assumes "i < 8"
  shows "(0x5FF8::u16) \<le> 0x5FF8 + of_nat i" and "0x5FF8 + of_nat i \<le> (0x5FFF::u16)"
proof -
  have "i \<in> set [0..<8]" using assms by simp
  then have i: "i \<in> {0, 1, 2, 3, 4, 5, 6, 7}"
    unfolding upt_8 by simp
  show "(0x5FF8::u16) \<le> 0x5FF8 + of_nat i" using i by auto
  show "0x5FF8 + of_nat i \<le> (0x5FFF::u16)" using i by auto
qed

lemma load_initial_banks_invariant:
  assumes "\<forall>i \<in> set ixs. i < 8" "cache_invariant (nes_memory nsf)" "io_ok (fp nsf)"
  shows "fst (load_initial_banks nsf ixs) = ESP_OK \<and>
         cache_invariant (nes_memory (snd (load_initial_banks nsf ixs))) \<and>
         io_ok (fp (snd (load_initial_banks nsf ixs)))"
  using assms
proof (induction ixs arbitrary: nsf)
  case Nil
  then show ?case by simp
next
  case (Cons i rest)
  obtain ret n1 where
    r: "nsf_load_rom_bank nsf (0x5FF8 + of_nat i) (bankswitch_init (header nsf) ! i) = (ret, n1)"
    by (cases "nsf_load_rom_bank nsf (0x5FF8 + of_nat i) (bankswitch_init (header nsf) ! i)")
  have i: "i < 8" using Cons.prems(1) by simp
  have k: "ret = ESP_OK" "cache_invariant (nes_memory n1)" "io_ok (fp n1)"
    using load_rom_bank_invariant [OF init_reg_range [OF i] Cons.prems(3) Cons.prems(2),
        of "bankswitch_init (header nsf) ! i"] r
    by simp_all
  have e: "load_initial_banks nsf (i # rest) = load_initial_banks n1 rest"
    by (simp add: r k(1))
  have "\<forall>i \<in> set rest. i < 8" using Cons.prems(1) by simp
  then show ?case
    unfolding e using k(2) k(3) by (rule Cons.IH)
qed

lemma init_load_rom_banks_invariant:
  assumes "nes_memory_sizes (nes_memory nsf)" "io_ok (fp nsf)"
  shows "fst (nsf_init_load_nes_rom_banks nsf) = ESP_OK \<and>
         cache_invariant (nes_memory (snd (nsf_init_load_nes_rom_banks nsf))) \<and>
         io_ok (fp (snd (nsf_init_load_nes_rom_banks nsf)))"
  unfolding nsf_init_load_nes_rom_banks_def
  using assms by (intro load_initial_banks_invariant) (simp_all add: fresh_cache_invariant)

lemma playback_cache_invariant:
  assumes bs: "nsf_has_bank_switching nsf" and ok: "io_ok (fp nsf)"
  shows "fst (nsf_playback_init cpu_ops nsf song cb) = ESP_OK \<and>
         (\<exists>n. active_nsf_file (snd (nsf_playback_init cpu_ops nsf song cb)) = Some n \<and>
              cache_invariant (nes_memory n) \<and> io_ok (fp n))"
proof -
  let ?n1 = "nsf_init_nes_prg (nsf_init_nes_memory (nsf\<lparr>apu_write_cb := cb\<rparr>)) song 0"
  let ?r = "nsf_init_load_nes_rom_banks ?n1"
  let ?w = "\<lparr>active_nsf_file = Some (snd ?r), events = []\<rparr>"
  have b: "nsf_has_bank_switching ?n1"
    using bs by (simp add: nsf_has_bank_switching_def nsf_init_nes_prg_def
        nsf_init_nes_memory_def Let_def)
  have o: "io_ok (fp ?n1)"
    using ok by (simp add: nsf_init_nes_prg_def nsf_init_nes_memory_def Let_def)
  have s: "nes_memory_sizes (nes_memory ?n1)"
    by (rule init_sizes)
  note i = init_load_rom_banks_invariant [OF s o]
  have e: "nsf_playback_init cpu_ops nsf song cb = (ESP_OK, cpu_run cpu_ops ?w)"
    using b i by (simp add: nsf_playback_init_def Let_def split_beta)
  have a: "active_nsf_file ?w = Some (snd ?r)" by simp
  show ?thesis
    unfolding e using cpu_run_invariant [OF a, of cpu_ops] i by simp
qed

text \<open>
  So a load of an uncached bank into a full cache, in any state that playback reaches,
  succeeds and moves the use list as lines 513 to 583 of the source prescribe.
\<close>

lemma reachable_eviction:
  assumes bs: "nsf_has_bank_switching nsf" and ok: "io_ok (fp nsf)"
    and act: "active_nsf_file (snd (nsf_playback_init cpu_ops nsf song cb)) = Some n"
    and lo: "0x5FF8 \<le> reg" and hi: "reg \<le> 0x5FFF"
    and full: "cache_full (nes_memory n)"
    and miss: "find_loaded_bank (nes_memory n) bank = None"
  shows "fst (nsf_load_rom_bank n reg bank) = ESP_OK"
    and "rom_bank_use_order (nes_memory (snd (nsf_load_rom_bank n reg bank))) =
           uint bank # butlast (rom_bank_use_order (nes_memory n))"
    and "cache_invariant (nes_memory (snd (nsf_load_rom_bank n reg bank)))"
proof -
  have inv: "cache_invariant (nes_memory n)" and okn: "io_ok (fp n)"
    using playback_cache_invariant [OF bs ok, of cpu_ops song cb] act by auto
  have sizes: "nes_memory_sizes (nes_memory n)" and lru: "lru_consistent (nes_memory n)"
    using inv by (simp_all add: cache_invariant_def)
  show "fst (nsf_load_rom_bank n reg bank) = ESP_OK"
    using evict_and_load [OF lo hi sizes okn full lru miss] by blast
  show "rom_bank_use_order (nes_memory (snd (nsf_load_rom_bank n reg bank))) =
           uint bank # butlast (rom_bank_use_order (nes_memory n))"
    using evict_and_load [OF lo hi sizes okn full lru miss] by blast
  show "cache_invariant (nes_memory (snd (nsf_load_rom_bank n reg bank)))"
    using load_rom_bank_invariant [OF lo hi okn inv] by simp
qed

subsection \<open>The ROM buffer of a bankswitched file keeps its size\<close>

text \<open>
  \<^verbatim>\<open>nsf_init_load_nes_rom_banks\<close> allocates ten slots of 4096 bytes. Every write of a
  bank load (the \<^verbatim>\<open>bzero\<close> of a slot and the \<^verbatim>\<open>fread\<close> into it) stays inside a buffer of
  that size, whatever the stream returns, so the buffer has 40960 bytes in every state of
  a bankswitched playback.
\<close>

lemma fread_length: "length (fst (fread count f)) \<le> count"
  by (simp add: fread_def Let_def)

lemma load_bank_data_rom_length:
  assumes r: "length (rom (nes_memory nsf)) = ROM_BANK_SIZE * ROM_BANK_COUNT"
    and s: "s < ROM_BANK_COUNT"
  shows "length (rom (nes_memory (snd (load_bank_data nsf s bank)))) = ROM_BANK_SIZE * ROM_BANK_COUNT"
proof -
  let ?pad = "unat (load_address (header nsf) AND 0x0FFF)"
  let ?R1 = "mem_write (rom (nes_memory nsf)) (s * 4096) (replicate 4096 0)"
  have b: "s * 4096 + 4096 \<le> 40960" using s by simp
  have l1: "length ?R1 = 40960"
    using r b by (simp add: mem_write_length)
  have w: "\<And>off d. off + length d \<le> s * 4096 + 4096 \<Longrightarrow> length (mem_write ?R1 off d) = 40960"
    using l1 b by (simp add: mem_write_length)
  have p: "?pad < 4096" by (rule padding_bound)
  have d0: "\<And>f. length (mem_write ?R1 (s * 4096 + ?pad) (fst (fread (4096 - ?pad) f))) = 40960"
  proof -
    fix f
    have "length (fst (fread (4096 - ?pad) f)) \<le> 4096 - ?pad" by (rule fread_length)
    then have "s * 4096 + ?pad + length (fst (fread (4096 - ?pad) f)) \<le> s * 4096 + 4096"
      using p by simp
    then show "length (mem_write ?R1 (s * 4096 + ?pad) (fst (fread (4096 - ?pad) f))) = 40960"
      by (rule w)
  qed
  have d1: "\<And>f. length (mem_write ?R1 (s * 4096) (fst (fread 4096 f))) = 40960"
  proof -
    fix f
    have "length (fst (fread 4096 f)) \<le> 4096" by (rule fread_length)
    then have "s * 4096 + length (fst (fread 4096 f)) \<le> s * 4096 + 4096" by simp
    then show "length (mem_write ?R1 (s * 4096) (fst (fread 4096 f))) = 40960"
      by (rule w)
  qed
  show ?thesis
    using l1 d0 d1 by (simp add: load_bank_data_def Let_def split_beta split: option.splits)
qed

lemma load_rom_bank_rom_length:
  assumes r: "length (rom (nes_memory nsf)) = ROM_BANK_SIZE * ROM_BANK_COUNT"
  shows "length (rom (nes_memory (snd (nsf_load_rom_bank nsf reg bank)))) =
           ROM_BANK_SIZE * ROM_BANK_COUNT"
proof (cases "reg < 0x5FF8 \<or> reg > 0x5FFF")
  case True
  then show ?thesis using r by (simp add: nsf_load_rom_bank_def)
next
  case rng: False
  let ?m = "nes_memory nsf"
  let ?t = "unat (ucast (reg - 0x5FF8) :: u8)"
  let ?slot = "case find_empty_slot ?m of Some k \<Rightarrow> Inr (k, ?m) | None \<Rightarrow> evict_oldest_bank ?m"
  show ?thesis
  proof (cases "find_loaded_bank ?m bank")
    case (Some s)
    then show ?thesis
      using rng r by (simp add: nsf_load_rom_bank_def Let_def mark_used_same)
  next
    case miss: None
    show ?thesis
    proof (cases ?slot)
      case (Inl e)
      then show ?thesis
        using rng miss r by (simp add: nsf_load_rom_bank_def Let_def)
    next
      case (Inr p)
      obtain s m1 where p: "p = (s, m1)" by (cases p)
      have sl: "?slot = Inr (s, m1)" using Inr p by simp
      have sm: "s < ROM_BANK_COUNT \<and> rom m1 = rom ?m"
      proof (cases "find_empty_slot ?m")
        case (Some k)
        then show ?thesis
          using sl find_empty_Some [OF Some] by simp
      next
        case None
        then have ev: "evict_oldest_bank ?m = Inr (s, m1)" using sl by simp
        show ?thesis
          using evict_result(1) [OF ev] by (subst evict_result(5) [OF ev]) (simp add: clear_reference_keeps)
      qed
      let ?ld = "load_bank_data (nsf\<lparr>nes_memory := m1\<rparr>) s bank"
      have "length (rom (nes_memory (nsf\<lparr>nes_memory := m1\<rparr>))) = ROM_BANK_SIZE * ROM_BANK_COUNT"
        using sm r by simp
      then have l: "length (rom (nes_memory (snd ?ld))) = ROM_BANK_SIZE * ROM_BANK_COUNT"
        using sm by (intro load_bank_data_rom_length) simp_all
      have e: "nsf_load_rom_bank nsf reg bank =
          (if \<not> fst ?ld then (ESP_FAIL, snd ?ld)
           else (ESP_OK, (snd ?ld)\<lparr>nes_memory := commit_bank (nes_memory (snd ?ld)) s ?t bank\<rparr>))"
        using rng miss sl by (simp add: nsf_load_rom_bank_def Let_def split_beta)
      show ?thesis
        unfolding e using l by (simp add: commit_bank_fields)
    qed
  qed
qed

lemma load_initial_banks_rom_length:
  assumes "length (rom (nes_memory nsf)) = ROM_BANK_SIZE * ROM_BANK_COUNT"
  shows "length (rom (nes_memory (snd (load_initial_banks nsf ixs)))) =
           ROM_BANK_SIZE * ROM_BANK_COUNT"
  using assms
proof (induction ixs arbitrary: nsf)
  case Nil
  then show ?case by simp
next
  case (Cons i rest)
  obtain ret n1 where
    r: "nsf_load_rom_bank nsf (0x5FF8 + of_nat i) (bankswitch_init (header nsf) ! i) = (ret, n1)"
    by (cases "nsf_load_rom_bank nsf (0x5FF8 + of_nat i) (bankswitch_init (header nsf) ! i)")
  have l: "length (rom (nes_memory n1)) = ROM_BANK_SIZE * ROM_BANK_COUNT"
    using load_rom_bank_rom_length [OF Cons.prems, of "0x5FF8 + of_nat i"
        "bankswitch_init (header nsf) ! i"] r by simp
  have e: "load_initial_banks nsf (i # rest) =
      (if ret \<noteq> ESP_OK then (ret, n1) else load_initial_banks n1 rest)"
    by (simp add: r)
  show ?case
    unfolding e using l Cons.IH [OF l] by simp
qed

lemma init_load_rom_banks_rom_length:
  "length (rom (nes_memory (snd (nsf_init_load_nes_rom_banks nsf)))) =
     ROM_BANK_SIZE * ROM_BANK_COUNT"
  unfolding nsf_init_load_nes_rom_banks_def
  by (rule load_initial_banks_rom_length) simp

lemma read6502_rom_length:
  assumes "active_nsf_file w = Some n"
    and "length (rom (nes_memory n)) = ROM_BANK_SIZE * ROM_BANK_COUNT"
  shows "\<exists>n'. active_nsf_file (snd (read6502 a w)) = Some n' \<and>
           length (rom (nes_memory n')) = ROM_BANK_SIZE * ROM_BANK_COUNT"
  using assms by (auto simp: read6502_def Let_def mark_used_same split: option.splits)

lemma write6502_rom_length:
  assumes act: "active_nsf_file w = Some n"
    and r: "length (rom (nes_memory n)) = ROM_BANK_SIZE * ROM_BANK_COUNT"
  shows "\<exists>n'. active_nsf_file (write6502 a v w) = Some n' \<and>
           length (rom (nes_memory n')) = ROM_BANK_SIZE * ROM_BANK_COUNT"
proof -
  let ?m = "nes_memory n"
  let ?n1 = "n\<lparr>nes_memory := ?m\<lparr>bank_regs := (bank_regs ?m)[unat (a - 0x5FF8) := v]\<rparr>\<rparr>"
  have "length (rom (nes_memory ?n1)) = ROM_BANK_SIZE * ROM_BANK_COUNT"
    using r by simp
  then have "length (rom (nes_memory (snd (nsf_load_rom_bank ?n1 a v)))) =
      ROM_BANK_SIZE * ROM_BANK_COUNT"
    by (rule load_rom_bank_rom_length)
  then show ?thesis
    using act r by (simp add: write6502_def Let_def)
qed

lemma cpu_run_rom_length:
  assumes "active_nsf_file w = Some n"
    and "length (rom (nes_memory n)) = ROM_BANK_SIZE * ROM_BANK_COUNT"
  shows "\<exists>n'. active_nsf_file (cpu_run ops w) = Some n' \<and>
           length (rom (nes_memory n')) = ROM_BANK_SIZE * ROM_BANK_COUNT"
  using assms
proof (induction ops arbitrary: w n)
  case Nil
  then show ?case by (simp add: cpu_run_def)
next
  case (Cons op ops)
  have "\<exists>n1. active_nsf_file (bus_step w op) = Some n1 \<and>
          length (rom (nes_memory n1)) = ROM_BANK_SIZE * ROM_BANK_COUNT"
  proof (cases op)
    case (Bus_read a)
    show ?thesis
      unfolding Bus_read bus_step.simps using Cons.prems by (rule read6502_rom_length)
  next
    case (Bus_write a v)
    show ?thesis
      unfolding Bus_write bus_step.simps using Cons.prems by (rule write6502_rom_length)
  qed
  then obtain n1 where n1: "active_nsf_file (bus_step w op) = Some n1"
      "length (rom (nes_memory n1)) = ROM_BANK_SIZE * ROM_BANK_COUNT"
    by blast
  show ?case
    using Cons.IH [OF n1] by (simp add: cpu_run_def)
qed

lemma playback_rom_length:
  assumes bs: "nsf_has_bank_switching nsf"
  shows "\<exists>n. active_nsf_file (snd (nsf_playback_init cpu_ops nsf song cb)) = Some n \<and>
           length (rom (nes_memory n)) = ROM_BANK_SIZE * ROM_BANK_COUNT"
proof -
  let ?n1 = "nsf_init_nes_prg (nsf_init_nes_memory (nsf\<lparr>apu_write_cb := cb\<rparr>)) song 0"
  let ?r = "nsf_init_load_nes_rom_banks ?n1"
  let ?w = "\<lparr>active_nsf_file = Some (snd ?r), events = []\<rparr>"
  have b: "nsf_has_bank_switching ?n1"
    using bs by (simp add: nsf_has_bank_switching_def nsf_init_nes_prg_def
        nsf_init_nes_memory_def Let_def)
  have l: "length (rom (nes_memory (snd ?r))) = ROM_BANK_SIZE * ROM_BANK_COUNT"
    by (rule init_load_rom_banks_rom_length)
  have e: "snd (nsf_playback_init cpu_ops nsf song cb) =
      (if fst ?r \<noteq> ESP_OK then ?w else cpu_run cpu_ops ?w)"
    using b by (simp add: nsf_playback_init_def Let_def split_beta)
  have a: "active_nsf_file ?w = Some (snd ?r)" by simp
  show ?thesis
    unfolding e using cpu_run_rom_length [OF a l, of cpu_ops] l by simp
qed

subsection \<open>Writes to the bank registers\<close>

lemma bank_reg_address:
  assumes "i < 8"
  shows "unat ((0x5FF8::u16) + of_nat i - 0x5FF8) = i"
    "(0x5FF8::u16) \<le> 0x5FF8 + of_nat i" "(0x5FF8::u16) + of_nat i \<le> 0x5FFF"
    "\<not> (0x5FF8::u16) + of_nat i \<le> 0x07FF" "\<not> (0x5FF8::u16) + of_nat i \<le> 0x4017"
proof -
  have u: "unat ((0x5FF8::u16) + of_nat i) = 0x5FF8 + i"
    using assms by (simp add: unat_word_ariths unat_of_nat)
  show "unat ((0x5FF8::u16) + of_nat i - 0x5FF8) = i"
    using assms by (simp add: unat_of_nat)
  show "(0x5FF8::u16) \<le> 0x5FF8 + of_nat i" "(0x5FF8::u16) + of_nat i \<le> 0x5FFF"
    "\<not> (0x5FF8::u16) + of_nat i \<le> 0x07FF" "\<not> (0x5FF8::u16) + of_nat i \<le> 0x4017"
    using assms u by (simp_all add: word_le_nat_alt)
qed

text \<open>
  The bankswitched example after \<^verbatim>\<open>nsf_playback_init\<close>, before the processor has made
  any bus call: the arrays have their declared sizes, the ROM buffer is the bank cache, and
  the shadow of bank register 0 is still 0 (the initial loads do not go through the bus).
\<close>

lemma banked_loaded_facts:
  "snd (nsf_playback_init [] banked_opened_nsf 0 True) =
     \<lparr>active_nsf_file = Some banked_loaded_nsf, events = []\<rparr>"
  "nes_memory_sizes (nes_memory banked_loaded_nsf)"
  "length (rom (nes_memory banked_loaded_nsf)) = ROM_BANK_SIZE * ROM_BANK_COUNT"
  "bank_regs (nes_memory banked_loaded_nsf) ! 0 = 0"
proof -
  let ?n1 = "nsf_init_nes_prg (nsf_init_nes_memory (banked_opened_nsf\<lparr>apu_write_cb := True\<rparr>)) 0 0"
  show "snd (nsf_playback_init [] banked_opened_nsf 0 True) =
     \<lparr>active_nsf_file = Some banked_loaded_nsf, events = []\<rparr>"
    by (simp add: banked_playback_init(1) cpu_run_def)
  have o: "io_ok (fp ?n1)"
    by (simp add: nsf_init_nes_prg_def nsf_init_nes_memory_def Let_def banked_opened_nsf_def
        banked_file_def)
  have "cache_invariant (nes_memory banked_loaded_nsf)"
    unfolding banked_loaded_nsf_def
    using init_load_rom_banks_invariant [OF init_sizes o] by simp
  then show "nes_memory_sizes (nes_memory banked_loaded_nsf)"
    by (simp add: cache_invariant_def)
  show "length (rom (nes_memory banked_loaded_nsf)) = ROM_BANK_SIZE * ROM_BANK_COUNT"
    unfolding banked_loaded_nsf_def by (rule init_load_rom_banks_rom_length)
  show "bank_regs (nes_memory banked_loaded_nsf) ! 0 = 0"
    by (simp add: banked_playback_init(4))
qed

text \<open>
  Claim C3, as the code has it. Take an active instance whose arrays have their declared
  sizes and whose ROM buffer is the bank cache of ten slots (40960 bytes), as
  \<^verbatim>\<open>nsf_playback_init\<close> leaves it for a bankswitched file; a bank load writes into that
  buffer, and without it the C code has no defined behaviour. Two successive writes of the
  same value \<open>v\<close> to the bank register \<^verbatim>\<open>$5FF8 + i\<close> (\<open>i\<close> from 0 to 7) request one bank
  load when the register's shadow differed from \<open>v\<close> before the first write, and none
  when the shadow already held \<open>v\<close>; the second write never requests a load and changes
  nothing; and the ROM buffer still has its 40960 bytes afterwards.
\<close>

theorem bank_register_write_twice:
  assumes act: "active_nsf_file w = Some nsf"
    and sizes: "nes_memory_sizes (nes_memory nsf)"
    and rom: "length (rom (nes_memory nsf)) = ROM_BANK_SIZE * ROM_BANK_COUNT"
    and i: "i < 8"
  shows "write6502 (0x5FF8 + of_nat i) v (write6502 (0x5FF8 + of_nat i) v w)
           = write6502 (0x5FF8 + of_nat i) v w
         \<and> bank_load_count (write6502 (0x5FF8 + of_nat i) v w)
           = bank_load_count w + (if bank_regs (nes_memory nsf) ! i = v then 0 else 1)
         \<and> (\<exists>nsf'. active_nsf_file (write6502 (0x5FF8 + of_nat i) v w) = Some nsf' \<and>
               length (rom (nes_memory nsf')) = ROM_BANK_SIZE * ROM_BANK_COUNT)"
proof -
  note a = bank_reg_address [OF i]
  let ?a = "(0x5FF8::u16) + of_nat i"
  let ?m = "nes_memory nsf"
  let ?nsf1 = "nsf\<lparr>nes_memory := ?m\<lparr>bank_regs := (bank_regs ?m)[i := v]\<rparr>\<rparr>"
  let ?nsf2 = "snd (nsf_load_rom_bank ?nsf1 ?a v)"
  let ?w1 = "w\<lparr>active_nsf_file := Some ?nsf2, events := events w @ [Load_rom_bank ?a v]\<rparr>"
  have len: "length (bank_regs ?m) = 8"
    using sizes by (simp add: nes_memory_sizes_def)
  have w1: "write6502 ?a v w = (if bank_regs ?m ! i = v then w else ?w1)"
    using act a by (simp add: write6502_def Let_def)
  have regs: "bank_regs (nes_memory ?nsf2) ! i = v"
    using load_rom_bank_fixed [of ?nsf1 ?a v] len i by (simp add: same_fixed_regions_def)
  have idem: "write6502 ?a v ?w1 = ?w1"
    using regs a by (simp add: write6502_def Let_def)
  have inb: "\<exists>nsf'. active_nsf_file (write6502 ?a v w) = Some nsf' \<and>
               length (rom (nes_memory nsf')) = ROM_BANK_SIZE * ROM_BANK_COUNT"
    using act rom by (rule write6502_rom_length)
  show ?thesis
  proof (cases "bank_regs ?m ! i = v")
    case True
    then show ?thesis using inb by (simp add: w1)
  next
    case False
    then show ?thesis using idem inb by (simp add: w1 bank_load_count_def)
  qed
qed

theorem bank_register_write_twice_witness:
  "active_nsf_file (snd (nsf_playback_init [] banked_opened_nsf 0 True)) = Some banked_loaded_nsf \<and>
   nes_memory_sizes (nes_memory banked_loaded_nsf) \<and>
   length (rom (nes_memory banked_loaded_nsf)) = ROM_BANK_SIZE * ROM_BANK_COUNT \<and>
   (0::nat) < 8 \<and>
   bank_load_count (write6502 0x5FF8 8 (snd (nsf_playback_init [] banked_opened_nsf 0 True))) = 1 \<and>
   write6502 0x5FF8 8 (write6502 0x5FF8 8 (snd (nsf_playback_init [] banked_opened_nsf 0 True)))
     = write6502 0x5FF8 8 (snd (nsf_playback_init [] banked_opened_nsf 0 True)) \<and>
   bank_load_count (write6502 0x5FF8 0
     (write6502 0x5FF8 0 (snd (nsf_playback_init [] banked_opened_nsf 0 True)))) = 0"
proof -
  let ?w = "\<lparr>active_nsf_file = Some banked_loaded_nsf, events = []\<rparr>"
  note f = banked_loaded_facts
  have act: "active_nsf_file ?w = Some banked_loaded_nsf" by simp
  have z: "bank_load_count ?w = 0" by (simp add: bank_load_count_def)
  show ?thesis
    unfolding f(1)
    using bank_register_write_twice [OF act f(2) f(3), of 0 8]
      bank_register_write_twice [OF act f(2) f(3), of 0 0] f(2) f(3) f(4) z
    by simp
qed

text \<open>
  The shadow of every bank register is 0 after \<^verbatim>\<open>nsf_init_nes_memory\<close>, so writing 0 to
  \<^verbatim>\<open>$5FF8\<close> twice requests no bank load at all.
\<close>

theorem bank_register_write_twice_no_load:
  "bank_load_count example_world = 0 \<and>
   bank_load_count (write6502 0x5FF8 0 (write6502 0x5FF8 0 example_world)) = 0"
  by (simp add: example_world_def example_nsf_def zero_nes_memory_def bank_load_count_def
      write6502_def Let_def)

end
